theory Spec2Isabelle
  imports Main "HOL-Library.Word"
begin

section \<open>JavaScript strings\<close>

text \<open>
  Message text is trimmed and split by the program, so it is modelled as JavaScript has it: a
  sequence of UTF-16 code units. Identifiers (chat ids, message ids, paths) are only compared
  and concatenated and stay plain strings.
\<close>

type_synonym jschar = "16 word"
type_synonym jsstring = "jschar list"

definition js :: "string \<Rightarrow> jsstring" where
  "js s = map (\<lambda>c. of_nat (of_char c)) s"

text \<open>
  The code units that \<^verbatim>\<open>String.prototype.trim\<close> strips and that \<^verbatim>\<open>\s\<close> matches
  (ECMAScript WhiteSpace and LineTerminator; the two sets are the same).
\<close>

definition isWhiteSpace :: "jschar \<Rightarrow> bool" where
  "isWhiteSpace c \<longleftrightarrow>
     (0x09 \<le> c \<and> c \<le> 0x0D) \<or> c = 0x20 \<or> c = 0xA0 \<or> c = 0x1680 \<or>
     (0x2000 \<le> c \<and> c \<le> 0x200A) \<or> c = 0x2028 \<or> c = 0x2029 \<or> c = 0x202F \<or>
     c = 0x205F \<or> c = 0x3000 \<or> c = 0xFEFF"

definition trim :: "jsstring \<Rightarrow> jsstring" where
  "trim s = rev (dropWhile isWhiteSpace (rev (dropWhile isWhiteSpace s)))"

text \<open>
  \<^verbatim>\<open>message.split(/\n\s*/)\<close>: the scan collects code units into the current segment; at a
  newline the segment is closed and the greedy \<^verbatim>\<open>\s*\<close> consumes all white space that
  follows. The segment open at the end of the input is always emitted, so the empty string
  splits into one empty segment.
\<close>

function split_newline :: "jsstring \<Rightarrow> jsstring \<Rightarrow> jsstring list" where
  "split_newline seg [] = [seg]"
| "split_newline seg (c # cs) =
     (if c = 0x0A then seg # split_newline [] (dropWhile isWhiteSpace cs)
      else split_newline (seg @ [c]) cs)"
  by pat_completeness auto
termination
  by (relation "measure (\<lambda>(seg, s). length s)")
     (auto simp: length_dropWhile_le less_Suc_eq_le)

definition splitMessages :: "jsstring \<Rightarrow> jsstring list" where
  "splitMessages message =
     (let message = trim message;
          messages = split_newline [] message
      in filter (\<lambda>message. trim message \<noteq> []) messages)"

text \<open>Lines joined by single newlines, to state what splitting undoes.\<close>

fun join_newline :: "jsstring list \<Rightarrow> jsstring" where
  "join_newline [] = []"
| "join_newline [x] = x"
| "join_newline (x # y # ys) = x @ 0x0A # join_newline (y # ys)"


text \<open>
  Lines joined by newlines, each newline followed by the white space given for it (none when
  the list of white space runs out). A string is blank when it is empty or all white space.
\<close>

fun join_spaced :: "jsstring list \<Rightarrow> jsstring list \<Rightarrow> jsstring" where
  "join_spaced [] seps = []"
| "join_spaced [x] seps = x"
| "join_spaced (x # y # ys) [] = x @ 0x0A # join_spaced (y # ys) []"
| "join_spaced (x # y # ys) (s # seps) = x @ 0x0A # s @ join_spaced (y # ys) seps"

definition blank :: "jsstring \<Rightarrow> bool" where
  "blank s \<longleftrightarrow> (\<forall>c\<in>set s. isWhiteSpace c)"


section \<open>Configuration, messages and collaborators\<close>

datatype AIOption = GPT | GEMINI

definition MAX_RETRIES :: nat where
  "MAX_RETRIES = 3"

text \<open>The delay handed to \<^verbatim>\<open>setTimeout\<close>, in milliseconds.\<close>

definition settle_delay :: nat where
  "settle_delay = 7000"

text \<open>A thrown value (a rejected promise is a throw at its \<^verbatim>\<open>await\<close>).\<close>

datatype error = Error string

type_synonym bytes = "8 word list"

text \<open>The files on disk: a path holds its content or is absent.\<close>

type_synonym fs = "string \<rightharpoonup> bytes"

text \<open>The fields of a \<^verbatim>\<open>wppconnect.Message\<close> that the program reads.\<close>

record Message =
  msg_id :: string
  chatId :: string
  msg_from :: string
  msg_type :: string
  body :: jsstring
  fromMe :: bool
  isGroupMsg :: bool

text \<open>
  What the outside world answers while one message is handled: the media download (a throw,
  no data, or the bytes), the write of the staging file, the speech-to-text request (a throw,
  or the text of the transcript, a string by the declared type of \<^verbatim>\<open>transcribeAudio\<close>) and
  the creation of the chat session of the GPT backend.
\<close>

record Outcomes =
  downloadMediaAsBuffer :: "error + bytes option"
  writeFileSync :: "error option"
  transcripts_create :: "error + jsstring"
  initializeNewAIChatSession :: "error option"

text \<open>
  The language-model backends and the delivery relay. A backend is asked with the buffered
  content (\<^verbatim>\<open>undefined\<close> is \<^const>\<open>None\<close>) and the chat id; its answer may differ from one
  attempt to the next, so it also depends on the attempt number.
\<close>

record Env =
  AI_SELECTED :: AIOption
  dirname :: string
  mainOpenAI :: "jsstring option \<Rightarrow> string \<Rightarrow> nat \<Rightarrow> error + jsstring"
  mainGoogle :: "jsstring option \<Rightarrow> string \<Rightarrow> nat \<Rightarrow> error + jsstring"
  sendMessagesWithDelay :: "jsstring list \<Rightarrow> string \<Rightarrow> error option"

text \<open>The three fixed replies of the source, by their first words.\<close>

definition desculpe_audio :: jsstring where
  "desculpe_audio =
     js ''Desculpe, n'' @ [0xE3] @ js ''o foi poss'' @ [0xED] @ js ''vel processar o '' @
     [0xE1] @ js ''udio.''"

definition nao_consigo_audio :: jsstring where
  "nao_consigo_audio = js ''N'' @ [0xE3] @ js ''o consigo te enviar audio''"

definition desculpe_nao_entendi :: jsstring where
  "desculpe_nao_entendi = js ''Desculpe, n'' @ [0xE3] @ js ''o entendi. Pode repetir?''"


section \<open>Transcriber\<close>

definition filePath :: "string \<Rightarrow> Message \<Rightarrow> string" where
  "filePath dir message = dir @ ''/temp/'' @ msg_id message @ ''.ogg''"

text \<open>\<^verbatim>\<open>fs.unlinkSync\<close> throws when the path does not exist.\<close>

definition unlinkSync :: "string \<Rightarrow> fs \<Rightarrow> error + fs" where
  "unlinkSync path files =
     (if files path = None then Inl (Error ''ENOENT'') else Inr (files(path := None)))"

text \<open>
  The \<^verbatim>\<open>try\<close> block of \<^verbatim>\<open>transcribeAudio\<close>: each statement either throws, which leaves the
  block with the files as they are at that moment, or goes on to the next.
\<close>

definition transcribeAudio_try :: "string \<Rightarrow> Outcomes \<Rightarrow> Message \<Rightarrow> fs \<Rightarrow> (error + jsstring) \<times> fs" where
  "transcribeAudio_try dir io message files =
     (case downloadMediaAsBuffer io of
        Inl e \<Rightarrow> (Inl e, files)
      | Inr None \<Rightarrow> (Inr desculpe_audio, files)
      | Inr (Some mediaData) \<Rightarrow>
          (case writeFileSync io of
             Some e \<Rightarrow> (Inl e, files)
           | None \<Rightarrow>
               (let files1 = files(filePath dir message \<mapsto> mediaData) in
                case transcripts_create io of
                  Inl e \<Rightarrow> (Inl e, files1)
                | Inr text \<Rightarrow>
                    (case unlinkSync (filePath dir message) files1 of
                       Inl e \<Rightarrow> (Inl e, files1)
                     | Inr files2 \<Rightarrow> (Inr text, files2)))))"

text \<open>The whole function: the \<^verbatim>\<open>catch\<close> turns every throw of the block into a reply.\<close>

definition transcribeAudio :: "string \<Rightarrow> Outcomes \<Rightarrow> Message \<Rightarrow> fs \<Rightarrow> (error + jsstring) \<times> fs" where
  "transcribeAudio dir io message files =
     (case transcribeAudio_try dir io message files of
        (Inl e, files') \<Rightarrow> (Inr nao_consigo_audio, files')
      | (Inr text, files') \<Rightarrow> (Inr text, files'))"


section \<open>Message handler, up to the buffer\<close>

text \<open>
  The part of the \<^verbatim>\<open>onAnyMessage\<close> callback before the buffer is written: the filters, the
  content of the message, and the session of the GPT backend. The result is the chat id, the
  content and the sender that reach the scheduler, or \<^const>\<open>None\<close> when the callback returns
  (or its outer \<^verbatim>\<open>catch\<close> logs a throw) before that.
\<close>

definition messageContent_of :: "Env \<Rightarrow> Outcomes \<Rightarrow> Message \<Rightarrow> fs \<Rightarrow> jsstring option \<times> fs" where
  "messageContent_of env io message files =
     (if msg_type message = ''ptt'' \<or> msg_type message = ''audio'' then
        (case transcribeAudio (dirname env) io message files of
           (Inr text, files') \<Rightarrow> (Some text, files')
         | (Inl e, files') \<Rightarrow> (Some desculpe_audio, files'))
      else if msg_type message = ''chat'' then (Some (body message), files)
      else (None, files))"

definition onAnyMessage :: "Env \<Rightarrow> Outcomes \<Rightarrow> Message \<Rightarrow> fs \<Rightarrow> (string \<times> jsstring \<times> string) option \<times> fs" where
  "onAnyMessage env io message files =
     (if fromMe message then (None, files)
      else if \<not> isGroupMsg message \<and> chatId message \<noteq> ''status@broadcast'' then
        (case messageContent_of env io message files of
           (None, files') \<Rightarrow> (None, files')
         | (Some messageContent, files') \<Rightarrow>
             (if AI_SELECTED env = GPT \<and> initializeNewAIChatSession io \<noteq> None
              then (None, files')
              else (Some (chatId message, messageContent, msg_from message), files')))
      else (None, files))"


section \<open>Retry controller and settle pipeline\<close>

text \<open>What the retry loop does, in order: a call of the backend, or the log line of a failed attempt.\<close>

datatype effect = Call nat | LogRetry nat

text \<open>
  The \<^verbatim>\<open>for\<close> loop of the timer callback, from \<^verbatim>\<open>attempt\<close> on. A call that returns leaves
  the loop, with a blank answer replaced; a call that throws is rethrown on the last attempt and
  logged otherwise. Past the bound the loop ends with the initial empty answer.
\<close>

function retry_loop :: "(nat \<Rightarrow> error + jsstring) \<Rightarrow> nat \<Rightarrow> effect list \<Rightarrow> (error + jsstring) \<times> effect list" where
  "retry_loop generate attempt trace =
     (if attempt \<le> MAX_RETRIES then
        (case generate attempt of
           Inr answer \<Rightarrow>
             (Inr (if trim answer = [] then desculpe_nao_entendi else answer), trace @ [Call attempt])
         | Inl e \<Rightarrow>
             (if attempt = MAX_RETRIES then (Inl e, trace @ [Call attempt])
              else retry_loop generate (attempt + 1) (trace @ [Call attempt, LogRetry attempt])))
      else (Inr [], trace))"
  by pat_completeness auto
termination
  by (relation "measure (\<lambda>(generate, attempt, trace). MAX_RETRIES + 1 - attempt)") auto

declare retry_loop.simps [simp del]

record Pipeline =
  p_id :: nat
  p_chatId :: string
  currentMessage :: "jsstring option"
  p_target :: string

definition generate_of :: "Env \<Rightarrow> Pipeline \<Rightarrow> nat \<Rightarrow> error + jsstring" where
  "generate_of env p =
     (if AI_SELECTED env = GPT then mainOpenAI env (currentMessage p) (p_chatId p)
      else mainGoogle env (currentMessage p) (p_chatId p))"

text \<open>
  The outcome of one run of the timer callback's \<^verbatim>\<open>try\<close> block: the effects of the retry
  loop, the batch handed to the delivery relay if the loop gave an answer, and the error its
  \<^verbatim>\<open>catch\<close> logged, if any.
\<close>

record Settled =
  effects :: "effect list"
  handed_over :: "(jsstring list \<times> string) option"
  logged :: "error option"

definition settle :: "Env \<Rightarrow> Pipeline \<Rightarrow> Settled" where
  "settle env p =
     (case retry_loop (generate_of env p) 1 [] of
        (Inl e, trace) \<Rightarrow> \<lparr>effects = trace, handed_over = None, logged = Some e\<rparr>
      | (Inr answer, trace) \<Rightarrow>
          (let messages = splitMessages answer in
           \<lparr>effects = trace, handed_over = Some (messages, p_target p),
            logged = sendMessagesWithDelay env messages (p_target p)\<rparr>))"


section \<open>Debounce scheduler\<close>

text \<open>An armed timer: its handle, the time it is due, and what its callback closes over.\<close>

record Timer =
  t_id :: nat
  t_deadline :: nat
  t_chatId :: string
  t_target :: string

text \<open>
  The state of the process between two callbacks of the event loop: the clock in milliseconds,
  the two module-level maps, the timers that are armed, the timer callbacks that have started
  and not yet finished, every callback that ever started (oldest first), the batches handed to
  the delivery relay, and the files on disk.
\<close>

record Scheduler =
  now :: nat
  messageBufferPerChatId :: "string \<rightharpoonup> jsstring"
  messageTimeouts :: "string \<rightharpoonup> nat"
  timers :: "Timer list"
  next_timer :: nat
  running :: "Pipeline list"
  started :: "Pipeline list"
  outbox :: "(jsstring list \<times> string) list"
  files :: fs

definition init :: "fs \<Rightarrow> Scheduler" where
  "init fs0 =
     \<lparr>now = 0, messageBufferPerChatId = Map.empty, messageTimeouts = Map.empty, timers = [],
      next_timer = 0, running = [], started = [], outbox = [], files = fs0\<rparr>"

text \<open>
  A timer that falls due starts its callback, which reads the buffer of its chat on its first
  line and then waits for the backend.
\<close>

definition fire :: "Scheduler \<Rightarrow> Timer \<Rightarrow> Pipeline" where
  "fire s tm =
     \<lparr>p_id = t_id tm, p_chatId = t_chatId tm,
      currentMessage = messageBufferPerChatId s (t_chatId tm), p_target = t_target tm\<rparr>"

text \<open>The clock moves to \<open>t\<close>: every armed timer that is due by then fires, oldest first.\<close>

definition advance :: "nat \<Rightarrow> Scheduler \<Rightarrow> Scheduler" where
  "advance t s =
     (let t' = max (now s) t;
          due = filter (\<lambda>tm. t_deadline tm \<le> t') (timers s);
          new = map (fire s) due
      in s\<lparr>now := t', timers := filter (\<lambda>tm. \<not> t_deadline tm \<le> t') (timers s),
            running := running s @ new, started := started s @ new\<rparr>)"

definition clearTimeout :: "nat \<Rightarrow> Scheduler \<Rightarrow> Scheduler" where
  "clearTimeout h s = s\<lparr>timers := filter (\<lambda>tm. t_id tm \<noteq> h) (timers s)\<rparr>"

text \<open>
  \<^verbatim>\<open>setTimeout(callback, 7000)\<close> for a callback that closes over \<open>c\<close> and the sender; the result
  is the new state and the handle.
\<close>

definition setTimeout :: "string \<Rightarrow> string \<Rightarrow> Scheduler \<Rightarrow> Scheduler \<times> nat" where
  "setTimeout c target s =
     (s\<lparr>timers := timers s @
           [\<lparr>t_id = next_timer s, t_deadline = now s + settle_delay, t_chatId = c, t_target = target\<rparr>],
        next_timer := next_timer s + 1\<rparr>,
      next_timer s)"

text \<open>
  The synchronous tail of the message callback: the content replaces the buffer of the chat,
  the timer whose handle is stored for the chat is cleared, and a new timer is armed and its
  handle stored.
\<close>

definition on_message :: "string \<Rightarrow> jsstring \<Rightarrow> string \<Rightarrow> Scheduler \<Rightarrow> Scheduler" where
  "on_message c messageContent target s =
     (let s1 = s\<lparr>messageBufferPerChatId := (messageBufferPerChatId s)(c \<mapsto> messageContent)\<rparr>;
          s2 = (case messageTimeouts s1 c of Some h \<Rightarrow> clearTimeout h s1 | None \<Rightarrow> s1);
          (s3, h) = setTimeout c target s2
      in s3\<lparr>messageTimeouts := (messageTimeouts s3)(c \<mapsto> h)\<rparr>)"

text \<open>
  The end of a timer callback: whatever its \<^verbatim>\<open>try\<close> block did, the \<^verbatim>\<open>finally\<close> block
  deletes the entries of its chat from both maps.
\<close>

definition complete :: "Env \<Rightarrow> Pipeline \<Rightarrow> Scheduler \<Rightarrow> Scheduler" where
  "complete env p s =
     s\<lparr>running := filter (\<lambda>q. p_id q \<noteq> p_id p) (running s),
       outbox := outbox s @ (case handed_over (settle env p) of None \<Rightarrow> [] | Some b \<Rightarrow> [b]),
       messageBufferPerChatId := (messageBufferPerChatId s)(p_chatId p := None),
       messageTimeouts := (messageTimeouts s)(p_chatId p := None)\<rparr>"

text \<open>
  The callbacks of the event loop, each at its time: a message whose callback reaches the
  buffer at that time (with the answers the outside world gave it), the end of the timer
  callback with the given handle, and the mere passing of time.
\<close>

datatype event = Receive nat Outcomes Message | Complete nat nat | Tick nat

fun step :: "Env \<Rightarrow> event \<Rightarrow> Scheduler \<Rightarrow> Scheduler" where
  "step env (Receive t io message) s =
     (let s1 = advance t s in
      case onAnyMessage env io message (files s1) of
        (None, files') \<Rightarrow> s1\<lparr>files := files'\<rparr>
      | (Some (c, messageContent, target), files') \<Rightarrow>
          on_message c messageContent target (s1\<lparr>files := files'\<rparr>))"
| "step env (Complete t h) s =
     (let s1 = advance t s in
      case find (\<lambda>p. p_id p = h) (running s1) of
        None \<Rightarrow> s1
      | Some p \<Rightarrow> complete env p s1)"
| "step env (Tick t) s = advance t s"

fun run :: "Env \<Rightarrow> event list \<Rightarrow> Scheduler \<Rightarrow> Scheduler" where
  "run env [] s = s"
| "run env (e # es) s = run env es (step env e s)"


section \<open>Measures and sample inputs\<close>

text \<open>The number of backend calls in a trace of the retry loop.\<close>

fun calls :: "effect list \<Rightarrow> nat" where
  "calls [] = 0"
| "calls (Call n # es) = Suc (calls es)"
| "calls (LogRetry n # es) = calls es"

text \<open>The trace of \<open>k\<close> attempts in a row that throw and are retried, the first numbered \<open>a\<close>.\<close>

definition failed_attempts :: "nat \<Rightarrow> nat \<Rightarrow> effect list" where
  "failed_attempts a k = concat (map (\<lambda>i. [Call i, LogRetry i]) [a..<a + k])"

text \<open>
  The transcription of a voice message fails when the download throws or gives no data, or the
  write of the staging file or the speech-to-text request throws.
\<close>

definition transcription_failed :: "Outcomes \<Rightarrow> bool" where
  "transcription_failed io =
     (case downloadMediaAsBuffer io of
        Inl e \<Rightarrow> True
      | Inr None \<Rightarrow> True
      | Inr (Some mediaData) \<Rightarrow> writeFileSync io \<noteq> None \<or> isl (transcripts_create io))"

text \<open>
  What holds between any two callbacks: the two maps have the same keys, and every handle
  that is armed, stored or owned by a running callback has already been handed out.
\<close>

definition sched_inv :: "Scheduler \<Rightarrow> bool" where
  "sched_inv s \<longleftrightarrow>
     (\<forall>c. (messageBufferPerChatId s c = None) = (messageTimeouts s c = None)) \<and>
     (\<forall>tm\<in>set (timers s). t_id tm < next_timer s) \<and>
     (\<forall>p\<in>set (running s). p_id p < next_timer s) \<and>
     (\<forall>c h. messageTimeouts s c = Some h \<longrightarrow> h < next_timer s)"

text \<open>
  A Gemini deployment whose backend answers, and one whose backend throws once and then
  answers with white space only.
\<close>

definition example_env :: Env where
  "example_env =
     \<lparr>AI_SELECTED = GEMINI, dirname = ''/app'',
      mainOpenAI = (\<lambda>m c n. Inr (js ''ok'')), mainGoogle = (\<lambda>m c n. Inr (js ''ok'')),
      sendMessagesWithDelay = (\<lambda>ms t. None)\<rparr>"

definition blank_env :: Env where
  "blank_env =
     \<lparr>AI_SELECTED = GEMINI, dirname = ''/app'',
      mainOpenAI = (\<lambda>m c n. Inr (js ''ok'')),
      mainGoogle = (\<lambda>m c n. if n = 1 then Inl (Error ''busy'') else Inr (js '' \<newline> '')),
      sendMessagesWithDelay = (\<lambda>ms t. None)\<rparr>"

text \<open>A GPT deployment, and a voice message without data whose chat session cannot be created.\<close>

definition gpt_env :: Env where
  "gpt_env =
     \<lparr>AI_SELECTED = GPT, dirname = ''/app'',
      mainOpenAI = (\<lambda>m c n. Inr (js ''ok'')), mainGoogle = (\<lambda>m c n. Inr (js ''ok'')),
      sendMessagesWithDelay = (\<lambda>ms t. None)\<rparr>"

definition io_session_fails :: Outcomes where
  "io_session_fails =
     \<lparr>downloadMediaAsBuffer = Inr None, writeFileSync = None, transcripts_create = Inr [],
      initializeNewAIChatSession = Some (Error ''401'')\<rparr>"

text \<open>
  Answers of the outside world: a download without data, a speech-to-text request that throws
  after the staging file was written, and a transcription that succeeds.
\<close>

definition io_none :: Outcomes where
  "io_none =
     \<lparr>downloadMediaAsBuffer = Inr None, writeFileSync = None, transcripts_create = Inr [],
      initializeNewAIChatSession = None\<rparr>"

definition io_stt_fails :: Outcomes where
  "io_stt_fails =
     \<lparr>downloadMediaAsBuffer = Inr (Some [1, 2, 3]), writeFileSync = None,
      transcripts_create = Inl (Error ''503''), initializeNewAIChatSession = None\<rparr>"

definition io_ok :: Outcomes where
  "io_ok =
     \<lparr>downloadMediaAsBuffer = Inr (Some [1, 2, 3]), writeFileSync = None,
      transcripts_create = Inr (js ''hello''), initializeNewAIChatSession = None\<rparr>"

definition chat_message :: "string \<Rightarrow> string \<Rightarrow> Message" where
  "chat_message c x =
     \<lparr>msg_id = ''m'', chatId = c, msg_from = c, msg_type = ''chat'', body = js x,
      fromMe = False, isGroupMsg = False\<rparr>"

definition voice_message :: Message where
  "voice_message =
     \<lparr>msg_id = ''v1'', chatId = ''c'', msg_from = ''c'', msg_type = ''ptt'', body = [],
      fromMe = False, isGroupMsg = False\<rparr>"


section \<open>Bursts of one chat\<close>

text \<open>The time of an event.\<close>

fun time_of :: "event \<Rightarrow> nat" where
  "time_of (Receive t io m) = t"
| "time_of (Complete t h) = t"
| "time_of (Tick t) = t"

text \<open>
  What of a message reaches the scheduler. The files on disk have no influence on it (lemma
  \<open>onAnyMessage_reaches\<close>), so the handler is run on an empty disk here.
\<close>

definition reaches_scheduler :: "Env \<Rightarrow> Outcomes \<Rightarrow> Message \<Rightarrow> (string \<times> jsstring \<times> string) option" where
  "reaches_scheduler env io m = fst (onAnyMessage env io m Map.empty)"

text \<open>The arrival of an event at the scheduler for chat \<open>c\<close>: its time, content and sender.\<close>

fun arrival_of :: "Env \<Rightarrow> string \<Rightarrow> event \<Rightarrow> (nat \<times> jsstring \<times> string) option" where
  "arrival_of env c (Receive t io m) =
     (case reaches_scheduler env io m of
        Some (c', x, target) \<Rightarrow> if c' = c then Some (t, x, target) else None
      | None \<Rightarrow> None)"
| "arrival_of env c (Complete t h) = None"
| "arrival_of env c (Tick t) = None"

text \<open>The arrivals for chat \<open>c\<close> among a list of events, in order.\<close>

fun arrivals :: "Env \<Rightarrow> string \<Rightarrow> event list \<Rightarrow> (nat \<times> jsstring \<times> string) list" where
  "arrivals env c [] = []"
| "arrivals env c (e # es) =
     (case arrival_of env c e of None \<Rightarrow> arrivals env c es | Some a \<Rightarrow> a # arrivals env c es)"

text \<open>The last of them, if there is one.\<close>

definition last_arrival :: "Env \<Rightarrow> string \<Rightarrow> event list \<Rightarrow> (nat \<times> jsstring \<times> string) option" where
  "last_arrival env c es = (case arrivals env c es of [] \<Rightarrow> None | a # as \<Rightarrow> Some (last (a # as)))"

text \<open>The callbacks ever started, the armed timers and the running callbacks of one chat.\<close>

definition started_for :: "string \<Rightarrow> Scheduler \<Rightarrow> Pipeline list" where
  "started_for c s = filter (\<lambda>p. p_chatId p = c) (started s)"

definition timers_for :: "string \<Rightarrow> Scheduler \<Rightarrow> Timer list" where
  "timers_for c s = filter (\<lambda>tm. t_chatId tm = c) (timers s)"

definition running_for :: "string \<Rightarrow> Scheduler \<Rightarrow> Pipeline list" where
  "running_for c s = filter (\<lambda>p. p_chatId p = c) (running s)"

text \<open>
  A chat is idle when none of its timers is armed and none of its callbacks is running. It is
  armed when its buffer holds \<open>x\<close>, exactly one timer of the chat is armed, due at \<open>d\<close>, whose
  handle is the one stored for the chat, and no callback of the chat is running.
\<close>

definition idle :: "string \<Rightarrow> Scheduler \<Rightarrow> bool" where
  "idle c s \<longleftrightarrow> timers_for c s = [] \<and> running_for c s = []"

definition armed :: "string \<Rightarrow> jsstring \<Rightarrow> string \<Rightarrow> nat \<Rightarrow> Scheduler \<Rightarrow> bool" where
  "armed c x target d s \<longleftrightarrow>
     messageBufferPerChatId s c = Some x \<and>
     (\<exists>h. messageTimeouts s c = Some h \<and>
        timers_for c s = [\<lparr>t_id = h, t_deadline = d, t_chatId = c, t_target = target\<rparr>]) \<and>
     running_for c s = [] \<and>
     now s < d"

text \<open>The state of a chat after its last arrival, if any: armed for the full delay from then.\<close>

definition cycle :: "string \<Rightarrow> (nat \<times> jsstring \<times> string) option \<Rightarrow> Scheduler \<Rightarrow> bool" where
  "cycle c a s =
     (case a of None \<Rightarrow> idle c s | Some (t, x, target) \<Rightarrow> armed c x target (t + settle_delay) s)"

text \<open>A stored handle never names an armed timer of another chat.\<close>

definition handles_own :: "Scheduler \<Rightarrow> bool" where
  "handles_own s \<longleftrightarrow>
     (\<forall>c h. messageTimeouts s c = Some h \<longrightarrow> (\<forall>tm\<in>set (timers s). t_id tm = h \<longrightarrow> t_chatId tm = c))"

text \<open>No handle belongs to two armed timers or running callbacks.\<close>

definition ids_distinct :: "Scheduler \<Rightarrow> bool" where
  "ids_distinct s \<longleftrightarrow> distinct (map t_id (timers s) @ map p_id (running s))"


section \<open>Reply splitter: lemmas\<close>

lemmas fixture_defs = example_env_def io_none_def io_stt_fails_def chat_message_def
  voice_message_def

lemmas sched_defs = init_def advance_def fire_def on_message_def setTimeout_def clearTimeout_def
  complete_def onAnyMessage_def messageContent_of_def settle_delay_def Let_def

lemma isWhiteSpace_newline: "isWhiteSpace 0x0A"
  by (simp add: isWhiteSpace_def)

lemma all_dropWhile_iff: "(\<forall>c\<in>set (dropWhile P s). P c) \<longleftrightarrow> (\<forall>c\<in>set s. P c)"
  by (induction s) auto

lemma trim_empty_iff: "trim s = [] \<longleftrightarrow> (\<forall>c\<in>set s. isWhiteSpace c)"
  by (simp add: trim_def all_dropWhile_iff)

lemma filter_dropWhile_not: "filter (\<lambda>c. \<not> P c) (dropWhile P xs) = filter (\<lambda>c. \<not> P c) xs"
  by (induction xs) auto

lemma filter_trim: "filter (\<lambda>c. \<not> isWhiteSpace c) (trim s) = filter (\<lambda>c. \<not> isWhiteSpace c) s"
  unfolding trim_def by (simp add: filter_dropWhile_not flip: rev_filter)

lemma dropWhile_snoc_keep: "\<not> P a \<Longrightarrow> \<exists>r. dropWhile P (xs @ [a]) = r @ [a]"
  by (induction xs) auto

lemma dropWhile_id: "xs \<noteq> [] \<Longrightarrow> \<not> P (hd xs) \<Longrightarrow> dropWhile P xs = xs"
  by (cases xs) auto

lemma trim_ends:
  assumes "trim s \<noteq> []"
  shows "\<not> isWhiteSpace (hd (trim s))" and "\<not> isWhiteSpace (last (trim s))"
proof -
  define d where "d = dropWhile isWhiteSpace s"
  have t: "trim s = rev (dropWhile isWhiteSpace (rev d))"
    by (simp add: trim_def d_def)
  from assms have "d \<noteq> []" by (auto simp: t)
  then obtain a as where d: "d = a # as" by (cases d) auto
  have a: "\<not> isWhiteSpace a"
    using d unfolding d_def by (metis hd_dropWhile list.distinct(1) list.sel(1))
  obtain r where r: "dropWhile isWhiteSpace (rev as @ [a]) = r @ [a]"
    using dropWhile_snoc_keep [of isWhiteSpace a "rev as"] a by blast
  then show "\<not> isWhiteSpace (hd (trim s))"
    using a by (simp add: t d)
  have "dropWhile isWhiteSpace (rev d) \<noteq> []" using assms by (simp add: t)
  then have "\<not> isWhiteSpace (hd (dropWhile isWhiteSpace (rev d)))"
    by (metis hd_dropWhile)
  then show "\<not> isWhiteSpace (last (trim s))"
    using \<open>dropWhile isWhiteSpace (rev d) \<noteq> []\<close> by (simp add: t last_rev)
qed

lemma trim_idem: "trim (trim s) = trim s"
proof (cases "trim s = []")
  case True
  show ?thesis unfolding True by (simp add: trim_def)
next
  case False
  note e = trim_ends [OF False]
  have 1: "dropWhile isWhiteSpace (trim s) = trim s"
    using False e(1) by (rule dropWhile_id)
  have 2: "dropWhile isWhiteSpace (rev (trim s)) = rev (trim s)"
    using False e(2) by (intro dropWhile_id) (simp_all add: hd_rev)
  show ?thesis
    by (subst (1) trim_def) (simp add: 1 2)
qed

lemma split_newline_concat:
  "filter (\<lambda>c. \<not> isWhiteSpace c) (concat (split_newline seg s)) =
   filter (\<lambda>c. \<not> isWhiteSpace c) (seg @ s)"
  by (induction seg s rule: split_newline.induct)
     (simp_all add: isWhiteSpace_newline filter_dropWhile_not)

lemma concat_filter_nonblank:
  "filter (\<lambda>c. \<not> isWhiteSpace c) (concat (filter (\<lambda>x. trim x \<noteq> []) xs)) =
   filter (\<lambda>c. \<not> isWhiteSpace c) (concat xs)"
  by (induction xs) (auto simp: trim_empty_iff filter_empty_conv)

lemma split_newline_no_newline:
  "0x0A \<notin> set seg \<Longrightarrow> \<forall>x\<in>set (split_newline seg s). 0x0A \<notin> set x"
  by (induction seg s rule: split_newline.induct) auto

lemma split_newline_hd:
  "split_newline seg s = (seg @ takeWhile (\<lambda>c. c \<noteq> 0x0A) s) # tl (split_newline seg s)"
  by (induction seg s rule: split_newline.induct) auto

lemma split_newline_plain: "0x0A \<notin> set s \<Longrightarrow> split_newline seg s = [seg @ s]"
  by (induction seg s rule: split_newline.induct) auto

lemma split_newline_append:
  "0x0A \<notin> set x \<Longrightarrow>
   split_newline seg (x @ 0x0A # rest) = (seg @ x) # split_newline [] (dropWhile isWhiteSpace rest)"
  by (induction x arbitrary: seg) auto

lemma splitMessages_nonempty:
  assumes "trim m \<noteq> []"
  shows "splitMessages m \<noteq> []"
proof -
  let ?t = "trim m"
  have h: "\<not> isWhiteSpace (hd ?t)" using trim_ends(1) [OF assms] .
  then have "hd ?t \<noteq> 0x0A" using isWhiteSpace_newline by auto
  then have "hd ?t \<in> set (takeWhile (\<lambda>c. c \<noteq> 0x0A) ?t)"
    using assms by (cases ?t) auto
  then have "trim (takeWhile (\<lambda>c. c \<noteq> 0x0A) ?t) \<noteq> []"
    using h by (auto simp: trim_empty_iff)
  then show ?thesis
    unfolding splitMessages_def Let_def
    by (subst split_newline_hd) simp
qed

lemma join_newline_nonempty:
  "xs \<noteq> [] \<Longrightarrow> \<forall>x\<in>set xs. x \<noteq> [] \<Longrightarrow> join_newline xs \<noteq> []"
  by (induction xs rule: join_newline.induct) auto

lemma hd_join_newline:
  "xs \<noteq> [] \<Longrightarrow> \<forall>x\<in>set xs. x \<noteq> [] \<Longrightarrow> hd (join_newline xs) = hd (hd xs)"
  by (induction xs rule: join_newline.induct) auto

lemma last_join_newline:
  "xs \<noteq> [] \<Longrightarrow> \<forall>x\<in>set xs. x \<noteq> [] \<Longrightarrow> last (join_newline xs) = last (last xs)"
  by (induction xs rule: join_newline.induct) (auto simp: join_newline_nonempty)

lemma split_newline_join:
  assumes "xs \<noteq> []"
    and "\<forall>x\<in>set xs. x \<noteq> [] \<and> 0x0A \<notin> set x \<and> \<not> isWhiteSpace (hd x)"
  shows "split_newline [] (join_newline xs) = xs"
  using assms
proof (induction xs rule: join_newline.induct)
  case 1
  then show ?case by simp
next
  case (2 x)
  then show ?case by (simp add: split_newline_plain)
next
  case (3 x y ys)
  have "join_newline (y # ys) \<noteq> []"
    using 3(3) by (intro join_newline_nonempty) auto
  moreover have "hd (join_newline (y # ys)) = hd y"
    using 3(3) by (subst hd_join_newline) auto
  ultimately have "dropWhile isWhiteSpace (join_newline (y # ys)) = join_newline (y # ys)"
    using 3(3) by (intro dropWhile_id) auto
  then show ?case using 3 by (simp add: split_newline_append)
qed

lemma splitMessages_join:
  assumes "xs \<noteq> []"
    and "\<forall>x\<in>set xs. x \<noteq> [] \<and> 0x0A \<notin> set x \<and> \<not> isWhiteSpace (hd x)"
    and "\<not> isWhiteSpace (last (last xs))"
  shows "splitMessages (join_newline xs) = xs"
proof -
  let ?j = "join_newline xs"
  have j: "?j \<noteq> []" using assms by (intro join_newline_nonempty) auto
  have "dropWhile isWhiteSpace ?j = ?j"
    using assms j by (intro dropWhile_id) (auto simp: hd_join_newline)
  moreover have "dropWhile isWhiteSpace (rev ?j) = rev ?j"
    using assms j by (intro dropWhile_id) (auto simp: hd_rev last_join_newline)
  ultimately have "trim ?j = ?j" by (simp add: trim_def)
  moreover have "filter (\<lambda>x. trim x \<noteq> []) xs = xs"
  proof -
    have "trim x \<noteq> []" if "x \<in> set xs" for x
    proof -
      have "x \<noteq> []" "\<not> isWhiteSpace (hd x)" using assms(2) that by auto
      then have "hd x \<in> set x" "\<not> isWhiteSpace (hd x)" by auto
      then show ?thesis unfolding trim_empty_iff by blast
    qed
    then show ?thesis by (simp add: filter_id_conv)
  qed
  ultimately show ?thesis
    using assms by (simp add: splitMessages_def split_newline_join)
qed

lemma splitMessages_examples:
  "splitMessages (js ''a\<newline>\<newline>b\<newline>  \<newline>c'') = [js ''a'', js ''b'', js ''c'']"
  "splitMessages (js ''  single  '') = [js ''single'']"
  "splitMessages (js '''') = []"
  by (simp_all add: splitMessages_def js_def trim_def isWhiteSpace_def)


lemma dropWhile_blank_append: "blank s \<Longrightarrow> dropWhile isWhiteSpace (s @ r) = dropWhile isWhiteSpace r"
  by (induction s) (auto simp: blank_def)

lemma join_spaced_nonempty:
  "xs \<noteq> [] \<Longrightarrow> \<forall>x\<in>set xs. x \<noteq> [] \<Longrightarrow> join_spaced xs seps \<noteq> []"
  by (induction xs seps rule: join_spaced.induct) auto

lemma hd_join_spaced:
  "xs \<noteq> [] \<Longrightarrow> \<forall>x\<in>set xs. x \<noteq> [] \<Longrightarrow> hd (join_spaced xs seps) = hd (hd xs)"
  by (induction xs seps rule: join_spaced.induct) auto

lemma last_join_spaced:
  "xs \<noteq> [] \<Longrightarrow> \<forall>x\<in>set xs. x \<noteq> [] \<Longrightarrow> last (join_spaced xs seps) = last (last xs)"
  by (induction xs seps rule: join_spaced.induct) (auto simp: join_spaced_nonempty)

lemma split_newline_join_spaced:
  assumes "xs \<noteq> []"
    and "\<forall>x\<in>set xs. x \<noteq> [] \<and> 0x0A \<notin> set x \<and> \<not> isWhiteSpace (hd x)"
    and "\<forall>s\<in>set seps. blank s"
  shows "split_newline [] (join_spaced xs seps) = xs"
  using assms
proof (induction xs seps rule: join_spaced.induct)
  case (1 seps)
  then show ?case by simp
next
  case (2 x seps)
  then show ?case by (simp add: split_newline_plain)
next
  case (3 x y ys)
  have ne: "join_spaced (y # ys) [] \<noteq> []"
    using 3(3) by (intro join_spaced_nonempty) auto
  moreover have "hd (join_spaced (y # ys) []) = hd y"
    using 3(3) by (subst hd_join_spaced) auto
  ultimately have "dropWhile isWhiteSpace (join_spaced (y # ys) []) = join_spaced (y # ys) []"
    using 3(3) by (intro dropWhile_id) auto
  then show ?case using 3 by (simp add: split_newline_append)
next
  case (4 x y ys s seps)
  have ne: "join_spaced (y # ys) seps \<noteq> []"
    using 4(3) by (intro join_spaced_nonempty) auto
  moreover have "hd (join_spaced (y # ys) seps) = hd y"
    using 4(3) by (subst hd_join_spaced) auto
  ultimately have "dropWhile isWhiteSpace (join_spaced (y # ys) seps) = join_spaced (y # ys) seps"
    using 4(3) by (intro dropWhile_id) auto
  then show ?case using 4 by (simp add: split_newline_append dropWhile_blank_append)
qed

lemma trim_padded:
  assumes "j \<noteq> []" "\<not> isWhiteSpace (hd j)" "\<not> isWhiteSpace (last j)" "blank pre" "blank post"
  shows "trim (pre @ j @ post) = j"
proof -
  have 1: "dropWhile isWhiteSpace (pre @ j @ post) = j @ post"
    using assms(1,2,4) by (simp add: dropWhile_blank_append dropWhile_id)
  have "blank (rev post)" using assms(5) by (simp add: blank_def)
  then have 2: "dropWhile isWhiteSpace (rev post @ rev j) = rev j"
    using assms(1,3) by (simp add: dropWhile_blank_append dropWhile_id hd_rev)
  show ?thesis by (simp add: trim_def 1 2)
qed

lemma splitMessages_join_spaced:
  assumes "xs \<noteq> []"
    and "\<forall>x\<in>set xs. x \<noteq> [] \<and> 0x0A \<notin> set x \<and> \<not> isWhiteSpace (hd x)"
    and "\<not> isWhiteSpace (last (last xs))"
    and "\<forall>s\<in>set seps. blank s" "blank pre" "blank post"
  shows "splitMessages (pre @ join_spaced xs seps @ post) = xs"
proof -
  let ?j = "join_spaced xs seps"
  have j: "?j \<noteq> []" using assms by (intro join_spaced_nonempty) auto
  have "trim (pre @ ?j @ post) = ?j"
    using assms j by (intro trim_padded) (auto simp: hd_join_spaced last_join_spaced)
  moreover have "filter (\<lambda>x. trim x \<noteq> []) xs = xs"
  proof -
    have "trim x \<noteq> []" if "x \<in> set xs" for x
    proof -
      have "x \<noteq> []" "\<not> isWhiteSpace (hd x)" using assms(2) that by auto
      then have "hd x \<in> set x" "\<not> isWhiteSpace (hd x)" by auto
      then show ?thesis unfolding trim_empty_iff by blast
    qed
    then show ?thesis by (simp add: filter_id_conv)
  qed
  ultimately show ?thesis
    using assms by (simp add: splitMessages_def split_newline_join_spaced)
qed

lemma last_dropWhile: "dropWhile P xs \<noteq> [] \<Longrightarrow> last (dropWhile P xs) = last xs"
  by (induction xs) auto

lemma trim_Nil: "trim [] = []"
  by (simp add: trim_def)

lemma split_newline_starts:
  assumes "seg @ s \<noteq> []" "\<not> isWhiteSpace (hd (seg @ s))" "\<not> isWhiteSpace (last (seg @ s))"
  shows "\<forall>x\<in>set (split_newline seg s). x \<noteq> [] \<and> \<not> isWhiteSpace (hd x)"
  using assms
proof (induction seg s rule: split_newline.induct)
  case (1 seg)
  then show ?case by simp
next
  case (2 seg c cs)
  show ?case
  proof (cases "c = 0x0A")
    case True
    have seg: "seg \<noteq> []" "\<not> isWhiteSpace (hd seg)"
      using 2(4) True isWhiteSpace_newline by (cases seg; auto)+
    have cs: "cs \<noteq> []" "\<not> isWhiteSpace (last cs)"
      using 2(5) True isWhiteSpace_newline by (cases cs; auto)+
    let ?r = "dropWhile isWhiteSpace cs"
    have r: "?r \<noteq> []" using cs by (auto simp: dropWhile_eq_Nil_conv)
    then have hr: "\<not> isWhiteSpace (hd ?r)" by (rule hd_dropWhile)
    have "last ?r = last cs"
      using r by (rule last_dropWhile)
    then have "\<forall>x\<in>set (split_newline [] ?r). x \<noteq> [] \<and> \<not> isWhiteSpace (hd x)"
      using 2(1) [OF True] r hr cs by simp
    then show ?thesis using True seg by simp
  next
    case False
    have h: "\<not> isWhiteSpace (hd ((seg @ [c]) @ cs))"
      using 2(4) by (cases seg) auto
    have l: "\<not> isWhiteSpace (last ((seg @ [c]) @ cs))"
      using 2(5) by simp
    have "\<forall>x\<in>set (split_newline (seg @ [c]) cs). x \<noteq> [] \<and> \<not> isWhiteSpace (hd x)"
      by (rule 2(2) [OF False _ h l]) simp
    then show ?thesis using False by (simp only: split_newline.simps if_False)
  qed
qed

lemma splitMessages_starts: "\<forall>x\<in>set (splitMessages m). x \<noteq> [] \<and> \<not> isWhiteSpace (hd x)"
proof (cases "trim m = []")
  case True
  then show ?thesis by (simp add: splitMessages_def trim_Nil)
next
  case False
  then show ?thesis
    using split_newline_starts [of "[]" "trim m"] trim_ends [OF False]
    by (simp add: splitMessages_def)
qed

lemma splitMessages_blank: "trim m = [] \<Longrightarrow> splitMessages m = []"
  by (simp add: splitMessages_def trim_Nil)

lemma split_newline_Cons: "\<exists>y ys. split_newline seg s = y # ys"
  using split_newline_hd [of seg s] by blast

lemma split_newline_decompose:
  "\<exists>seps. (\<forall>s\<in>set seps. blank s) \<and> join_spaced (split_newline seg s) seps = seg @ s"
proof (induction seg s rule: split_newline.induct)
  case (1 seg)
  show ?case by (rule exI [of _ "[]"]) simp
next
  case (2 seg c cs)
  show ?case
  proof (cases "c = 0x0A")
    case True
    let ?r = "dropWhile isWhiteSpace cs"
    from 2(1) [OF True] obtain seps where b: "\<forall>s\<in>set seps. blank s"
      and j: "join_spaced (split_newline [] ?r) seps = ?r" by auto
    obtain y ys where c: "split_newline [] ?r = y # ys" using split_newline_Cons by blast
    have "blank (takeWhile isWhiteSpace cs)"
      by (auto simp: blank_def dest: set_takeWhileD)
    moreover have "join_spaced (split_newline seg (c # cs)) (takeWhile isWhiteSpace cs # seps) =
        seg @ c # cs"
      using True j c by simp
    ultimately show ?thesis using b by (intro exI [of _ "takeWhile isWhiteSpace cs # seps"]) simp
  next
    case False
    then show ?thesis using 2(2) [OF False] by simp
  qed
qed

lemma trim_decompose: "\<exists>pre post. blank pre \<and> blank post \<and> m = pre @ trim m @ post"
proof -
  let ?d = "dropWhile isWhiteSpace m"
  have "?d = rev (takeWhile isWhiteSpace (rev ?d) @ dropWhile isWhiteSpace (rev ?d))" by simp
  also have "\<dots> = rev (dropWhile isWhiteSpace (rev ?d)) @ rev (takeWhile isWhiteSpace (rev ?d))"
    by (rule rev_append)
  finally have d: "?d = trim m @ rev (takeWhile isWhiteSpace (rev ?d))"
    unfolding trim_def .
  have "m = takeWhile isWhiteSpace m @ ?d" by simp
  then have "m = takeWhile isWhiteSpace m @ trim m @ rev (takeWhile isWhiteSpace (rev ?d))"
    using d by simp
  moreover have "blank (takeWhile isWhiteSpace m)"
    by (auto simp: blank_def dest: set_takeWhileD)
  moreover have "blank (rev (takeWhile isWhiteSpace (rev ?d)))"
    by (auto simp: blank_def dest: set_takeWhileD)
  ultimately show ?thesis by blast
qed

lemma splitMessages_decompose:
  assumes "trim m \<noteq> []"
  shows "\<exists>pre post seps. blank pre \<and> blank post \<and> (\<forall>s\<in>set seps. blank s) \<and>
      m = pre @ join_spaced (splitMessages m) seps @ post"
    and "\<not> isWhiteSpace (last (last (splitMessages m)))"
proof -
  have st: "\<forall>x\<in>set (split_newline [] (trim m)). x \<noteq> [] \<and> \<not> isWhiteSpace (hd x)"
    using split_newline_starts [of "[]" "trim m"] trim_ends [OF assms] assms by simp
  have "trim x \<noteq> []" if "x \<in> set (split_newline [] (trim m))" for x
  proof -
    have "hd x \<in> set x" "\<not> isWhiteSpace (hd x)" using st that by auto
    then show ?thesis unfolding trim_empty_iff by blast
  qed
  then have sm: "splitMessages m = split_newline [] (trim m)"
    by (simp add: splitMessages_def filter_id_conv)
  obtain seps where b: "\<forall>s\<in>set seps. blank s"
    and j: "join_spaced (split_newline [] (trim m)) seps = trim m"
    using split_newline_decompose [of "[]" "trim m"] by auto
  obtain pre post where p: "blank pre" "blank post" "m = pre @ trim m @ post"
    using trim_decompose by blast
  have "m = pre @ join_spaced (splitMessages m) seps @ post"
    using p(3) j sm by simp
  then show "\<exists>pre post seps. blank pre \<and> blank post \<and> (\<forall>s\<in>set seps. blank s) \<and>
      m = pre @ join_spaced (splitMessages m) seps @ post"
    using p b by blast
  obtain y ys where c: "split_newline [] (trim m) = y # ys" using split_newline_Cons by blast
  have "last (join_spaced (split_newline [] (trim m)) seps) = last (last (split_newline [] (trim m)))"
    using st c by (intro last_join_spaced) auto
  then show "\<not> isWhiteSpace (last (last (splitMessages m)))"
    using trim_ends(2) [OF assms] j sm by simp
qed


section \<open>Reply splitter: the claim\<close>

text \<open>
  C6. \<^const>\<open>splitMessages\<close> trims its input, splits at every newline together with the white
  space after it, drops the segments that are empty or all white space and keeps the order of
  the rest. The three examples of the specification evaluate as stated; an input that is not
  blank gives at least one segment; every segment of the output is non-blank and free of
  newlines; surrounding white space of the input is irrelevant; the non-blank characters of
  the output are those of the input, in the same order; and lines that are non-empty, start
  with a visible character and are joined by newlines come back exactly as they went in.
  The white space after a newline belongs to the separator: no segment of the output is empty
  or starts with white space, and a blank input gives no segment. The function is determined
  on every input: lines as above, joined by newlines that are each followed by any white
  space, with any white space around the whole, come back exactly; and every input that is
  not blank is of that form, with the segments of the output as its lines.
\<close>

theorem splitMessages_contract:
  "splitMessages (js ''a\<newline>\<newline>b\<newline>  \<newline>c'') = [js ''a'', js ''b'', js ''c''] \<and>
   splitMessages (js ''  single  '') = [js ''single''] \<and>
   splitMessages (js '''') = [] \<and>
   (trim m \<noteq> [] \<longrightarrow> 1 \<le> length (splitMessages m)) \<and>
   (\<forall>x\<in>set (splitMessages m). trim x \<noteq> [] \<and> 0x0A \<notin> set x) \<and>
   splitMessages (trim m) = splitMessages m \<and>
   filter (\<lambda>c. \<not> isWhiteSpace c) (concat (splitMessages m)) = filter (\<lambda>c. \<not> isWhiteSpace c) m \<and>
   (xs \<noteq> [] \<and> (\<forall>x\<in>set xs. x \<noteq> [] \<and> 0x0A \<notin> set x \<and> \<not> isWhiteSpace (hd x)) \<and>
      \<not> isWhiteSpace (last (last xs)) \<longrightarrow> splitMessages (join_newline xs) = xs) \<and>
   (\<forall>x\<in>set (splitMessages m). x \<noteq> [] \<and> \<not> isWhiteSpace (hd x)) \<and>
   (trim m = [] \<longrightarrow> splitMessages m = []) \<and>
   (xs \<noteq> [] \<and> (\<forall>x\<in>set xs. x \<noteq> [] \<and> 0x0A \<notin> set x \<and> \<not> isWhiteSpace (hd x)) \<and>
      \<not> isWhiteSpace (last (last xs)) \<and> blank pre \<and> blank post \<and> (\<forall>s\<in>set seps. blank s) \<longrightarrow>
      splitMessages (pre @ join_spaced xs seps @ post) = xs) \<and>
   (trim m \<noteq> [] \<longrightarrow>
      \<not> isWhiteSpace (last (last (splitMessages m))) \<and>
      (\<exists>pre post seps. blank pre \<and> blank post \<and> (\<forall>s\<in>set seps. blank s) \<and>
         m = pre @ join_spaced (splitMessages m) seps @ post))"
proof -
  have len: "trim m \<noteq> [] \<longrightarrow> 1 \<le> length (splitMessages m)"
    using splitMessages_nonempty [of m] by (cases "splitMessages m") auto
  have seg: "\<forall>x\<in>set (splitMessages m). trim x \<noteq> [] \<and> 0x0A \<notin> set x"
    using split_newline_no_newline [of "[]" "trim m"] by (auto simp: splitMessages_def)
  have tr: "splitMessages (trim m) = splitMessages m"
    by (simp add: splitMessages_def trim_idem)
  have ord: "filter (\<lambda>c. \<not> isWhiteSpace c) (concat (splitMessages m)) =
      filter (\<lambda>c. \<not> isWhiteSpace c) m"
    by (simp add: splitMessages_def concat_filter_nonblank split_newline_concat filter_trim)
  have jn: "xs \<noteq> [] \<and> (\<forall>x\<in>set xs. x \<noteq> [] \<and> 0x0A \<notin> set x \<and> \<not> isWhiteSpace (hd x)) \<and>
      \<not> isWhiteSpace (last (last xs)) \<longrightarrow> splitMessages (join_newline xs) = xs"
    using splitMessages_join [of xs] by blast
  have js: "xs \<noteq> [] \<and> (\<forall>x\<in>set xs. x \<noteq> [] \<and> 0x0A \<notin> set x \<and> \<not> isWhiteSpace (hd x)) \<and>
      \<not> isWhiteSpace (last (last xs)) \<and> blank pre \<and> blank post \<and> (\<forall>s\<in>set seps. blank s) \<longrightarrow>
      splitMessages (pre @ join_spaced xs seps @ post) = xs"
    using splitMessages_join_spaced [of xs seps pre post] by blast
  have dec: "trim m \<noteq> [] \<longrightarrow>
      \<not> isWhiteSpace (last (last (splitMessages m))) \<and>
      (\<exists>pre post seps. blank pre \<and> blank post \<and> (\<forall>s\<in>set seps. blank s) \<and>
         m = pre @ join_spaced (splitMessages m) seps @ post)"
    using splitMessages_decompose [of m] by blast
  have bl: "trim m = [] \<longrightarrow> splitMessages m = []"
    using splitMessages_blank by blast
  show ?thesis
    by (intro conjI splitMessages_examples len seg tr ord jn splitMessages_starts bl js dec)
qed

theorem splitMessages_contract_witness:
  "trim (js '' hi \<newline> you  '') \<noteq> [] \<and>
   splitMessages (js '' hi \<newline> you  '') = [js ''hi '', js ''you''] \<and>
   1 \<le> length (splitMessages (js '' hi \<newline> you  '')) \<and>
   list_all (\<lambda>x. trim x \<noteq> [] \<and> 0x0A \<notin> set x) (splitMessages (js '' hi \<newline> you  '')) \<and>
   list_all (\<lambda>x. x \<noteq> [] \<and> \<not> isWhiteSpace (hd x)) (splitMessages (js '' hi \<newline> you  '')) \<and>
   \<not> isWhiteSpace (last (last (splitMessages (js '' hi \<newline> you  '')))) \<and>
   [js ''hi'', js ''you''] \<noteq> [] \<and>
   list_all (\<lambda>x. x \<noteq> [] \<and> 0x0A \<notin> set x \<and> \<not> isWhiteSpace (hd x)) [js ''hi'', js ''you''] \<and>
   \<not> isWhiteSpace (last (last [js ''hi'', js ''you''])) \<and>
   splitMessages (join_newline [js ''hi'', js ''you'']) = [js ''hi'', js ''you''] \<and>
   blank (js '' '') \<and> blank (js ''\<newline>  '') \<and> list_all blank [js '' \<newline> ''] \<and>
   splitMessages (js '' '' @ join_spaced [js ''hi'', js ''you''] [js '' \<newline> ''] @ js ''\<newline>  '') =
     [js ''hi'', js ''you''] \<and>
   trim (js ''  '') = [] \<and> splitMessages (js ''  '') = []"
proof -
  have e: "splitMessages (js '' hi \<newline> you  '') = [js ''hi '', js ''you'']"
    by (simp add: splitMessages_def js_def trim_def isWhiteSpace_def)
  have t: "trim (js '' hi \<newline> you  '') \<noteq> []"
    by (simp add: js_def trim_def isWhiteSpace_def)
  have h: "[js ''hi'', js ''you''] \<noteq> [] \<and>
      (\<forall>x\<in>set [js ''hi'', js ''you'']. x \<noteq> [] \<and> 0x0A \<notin> set x \<and> \<not> isWhiteSpace (hd x)) \<and>
      \<not> isWhiteSpace (last (last [js ''hi'', js ''you'']))"
    by (simp add: js_def isWhiteSpace_def)
  have b: "blank (js '' '')" "blank (js ''\<newline>  '')" "\<forall>s\<in>set [js '' \<newline> '']. blank s"
    by (simp_all add: blank_def js_def isWhiteSpace_def)
  have n: "trim (js ''  '') = []"
    by (simp add: js_def trim_def isWhiteSpace_def)
  note A = splitMessages_contract [of "js '' hi \<newline> you  ''" "[js ''hi'', js ''you'']"
      "js '' ''" "js ''\<newline>  ''" "[js '' \<newline> '']"]
  note B = splitMessages_contract [of "js ''  ''" "[js ''hi'', js ''you'']"
      "js '' ''" "js ''\<newline>  ''" "[js '' \<newline> '']"]
  have 1: "splitMessages (js ''  '') = []" using B n by blast
  show ?thesis
    using e t h b n 1 A unfolding list_all_iff by blast
qed


section \<open>Transcriber: the claims\<close>

lemma transcribeAudio_file:
  assumes "downloadMediaAsBuffer io = Inr (Some d)" "writeFileSync io = None"
  shows "snd (transcribeAudio dir io m fs) (filePath dir m) =
    (case transcripts_create io of Inl e \<Rightarrow> Some d | Inr text \<Rightarrow> None)"
  using assms
  by (simp add: transcribeAudio_def transcribeAudio_try_def unlinkSync_def split: sum.splits)

text \<open>
  C8. The staging file is meant to be gone when \<^const>\<open>transcribeAudio\<close> returns, whatever the
  speech-to-text service did. The source deletes it only on the path where the request
  returned: for the voice message \<open>v1\<close> whose download gives three bytes and whose request
  throws, the function returns its reply and the file \<^verbatim>\<open>/app/temp/v1.ogg\<close> is still there
  with those bytes. When the request succeeds the file is absent afterwards.
\<close>

theorem staging_file_left_behind:
  "filePath ''/app'' voice_message = ''/app/temp/v1.ogg'' \<and>
   fst (transcribeAudio ''/app'' io_stt_fails voice_message Map.empty) = Inr nao_consigo_audio \<and>
   snd (transcribeAudio ''/app'' io_stt_fails voice_message Map.empty) ''/app/temp/v1.ogg'' =
     Some [1, 2, 3] \<and>
   snd (transcribeAudio ''/app'' io_ok voice_message Map.empty) ''/app/temp/v1.ogg'' = None"
  by (simp add: transcribeAudio_def transcribeAudio_try_def io_stt_fails_def io_ok_def
      voice_message_def filePath_def unlinkSync_def)

text \<open>
  C9, as stated: every failure of the transcription gives one fixed apology. It does not: a
  download without data and a failed speech-to-text request give different replies.
\<close>

theorem apology_not_one_string:
  "\<not> (fst (transcribeAudio ''/app'' io_none voice_message Map.empty) =
      fst (transcribeAudio ''/app'' io_stt_fails voice_message Map.empty))"
  by (simp add: transcribeAudio_def transcribeAudio_try_def io_stt_fails_def io_none_def
      desculpe_audio_def nao_consigo_audio_def js_def)

text \<open>
  C9, amended. \<^const>\<open>transcribeAudio\<close> never throws: its result is always a returned string.
  A download without data returns \<^const>\<open>desculpe_audio\<close>; a throw of the download, of the
  write or of the speech-to-text request returns \<^const>\<open>nao_consigo_audio\<close>; when all three
  succeed the transcript is returned. For a voice message the handler therefore always goes on
  with the returned string as the content of the message.
\<close>

theorem transcribeAudio_never_throws:
  "(\<exists>text. fst (transcribeAudio dir io m fs) = Inr text) \<and>
   (downloadMediaAsBuffer io = Inr None \<longrightarrow> fst (transcribeAudio dir io m fs) = Inr desculpe_audio) \<and>
   ((\<exists>e. downloadMediaAsBuffer io = Inl e) \<or>
    (\<exists>d. downloadMediaAsBuffer io = Inr (Some d) \<and>
         (writeFileSync io \<noteq> None \<or> (\<exists>e. transcripts_create io = Inl e))) \<longrightarrow>
      fst (transcribeAudio dir io m fs) = Inr nao_consigo_audio) \<and>
   (downloadMediaAsBuffer io = Inr (Some d) \<and> writeFileSync io = None \<and>
      transcripts_create io = Inr text \<longrightarrow> fst (transcribeAudio dir io m fs) = Inr text) \<and>
   (msg_type m = ''ptt'' \<or> msg_type m = ''audio'' \<longrightarrow>
      (\<exists>text. fst (transcribeAudio (dirname env) io m fs) = Inr text \<and>
         messageContent_of env io m fs = (Some text, snd (transcribeAudio (dirname env) io m fs))))"
  by (auto simp: transcribeAudio_def transcribeAudio_try_def unlinkSync_def messageContent_of_def
      split: sum.splits option.splits prod.splits)

theorem transcribeAudio_never_throws_witness:
  "downloadMediaAsBuffer io_none = Inr None \<and>
   fst (transcribeAudio ''/app'' io_none voice_message Map.empty) = Inr desculpe_audio \<and>
   downloadMediaAsBuffer io_stt_fails = Inr (Some [1, 2, 3]) \<and>
   transcripts_create io_stt_fails = Inl (Error ''503'') \<and>
   fst (transcribeAudio ''/app'' io_stt_fails voice_message Map.empty) = Inr nao_consigo_audio \<and>
   writeFileSync io_ok = None \<and> transcripts_create io_ok = Inr (js ''hello'') \<and>
   fst (transcribeAudio ''/app'' io_ok voice_message Map.empty) = Inr (js ''hello'') \<and>
   msg_type voice_message = ''ptt'' \<and>
   fst (messageContent_of example_env io_stt_fails voice_message Map.empty) = Some nao_consigo_audio"
proof -
  have a: "downloadMediaAsBuffer io_none = Inr None"
    and b: "downloadMediaAsBuffer io_stt_fails = Inr (Some [1, 2, 3])"
      "transcripts_create io_stt_fails = Inl (Error ''503'')"
    and c: "downloadMediaAsBuffer io_ok = Inr (Some [1, 2, 3])" "writeFileSync io_ok = None"
      "transcripts_create io_ok = Inr (js ''hello'')"
    and d: "msg_type voice_message = ''ptt''" "dirname example_env = ''/app''"
    by (simp_all add: fixture_defs io_ok_def)
  show ?thesis
    using a b c d
      transcribeAudio_never_throws [of "''/app''" io_none voice_message Map.empty "[]" "[]" example_env]
      transcribeAudio_never_throws [of "''/app''" io_stt_fails voice_message Map.empty "[]" "[]" example_env]
      transcribeAudio_never_throws [of "''/app''" io_ok voice_message Map.empty "[1, 2, 3]" "js ''hello''" example_env]
    by auto
qed


section \<open>Retry controller: lemmas\<close>

lemma calls_append: "calls (xs @ ys) = calls xs + calls ys"
  by (induction xs rule: calls.induct) auto

lemma calls_failed_attempts: "calls (failed_attempts a k) = k"
  by (induction k) (auto simp: failed_attempts_def calls_append)

lemma failed_attempts_Suc: "failed_attempts a (Suc k) = [Call a, LogRetry a] @ failed_attempts (Suc a) k"
  by (simp add: failed_attempts_def upt_rec)

lemma retry_loop_skip:
  assumes "attempt + k \<le> MAX_RETRIES"
    and "\<forall>i. attempt \<le> i \<and> i < attempt + k \<longrightarrow> isl (generate i)"
  shows "retry_loop generate attempt trace =
    retry_loop generate (attempt + k) (trace @ failed_attempts attempt k)"
  using assms
proof (induction k arbitrary: attempt trace)
  case 0
  then show ?case by (simp add: failed_attempts_def)
next
  case (Suc k)
  from Suc.prems have f: "isl (generate attempt)" and lt: "attempt < MAX_RETRIES" by auto
  have "retry_loop generate attempt trace =
      retry_loop generate (attempt + 1) (trace @ [Call attempt, LogRetry attempt])"
    using f lt by (subst retry_loop.simps) (auto split: sum.splits)
  also have "\<dots> = retry_loop generate (attempt + 1 + k)
      ((trace @ [Call attempt, LogRetry attempt]) @ failed_attempts (attempt + 1) k)"
    using Suc.prems by (intro Suc.IH) auto
  finally show ?case by (simp add: failed_attempts_Suc)
qed

lemma retry_loop_success:
  assumes "k < MAX_RETRIES"
    and "\<forall>i. 1 \<le> i \<and> i \<le> k \<longrightarrow> isl (generate i)"
    and "generate (k + 1) = Inr v"
  shows "retry_loop generate 1 [] =
    (Inr (if trim v = [] then desculpe_nao_entendi else v), failed_attempts 1 k @ [Call (k + 1)])"
proof -
  have "retry_loop generate 1 [] = retry_loop generate (1 + k) ([] @ failed_attempts 1 k)"
    using assms by (intro retry_loop_skip) auto
  also have "\<dots> = (Inr (if trim v = [] then desculpe_nao_entendi else v),
      failed_attempts 1 k @ [Call (k + 1)])"
    using assms by (subst retry_loop.simps) auto
  finally show ?thesis .
qed

lemma retry_loop_exhausted:
  assumes "\<forall>i. 1 \<le> i \<and> i \<le> MAX_RETRIES \<longrightarrow> generate i = Inl (err i)"
  shows "retry_loop generate 1 [] =
    (Inl (err MAX_RETRIES), failed_attempts 1 (MAX_RETRIES - 1) @ [Call MAX_RETRIES])"
proof -
  have "retry_loop generate 1 [] =
      retry_loop generate (1 + (MAX_RETRIES - 1)) ([] @ failed_attempts 1 (MAX_RETRIES - 1))"
    using assms by (intro retry_loop_skip) (auto simp: MAX_RETRIES_def)
  also have "\<dots> = (Inl (err MAX_RETRIES), failed_attempts 1 (MAX_RETRIES - 1) @ [Call MAX_RETRIES])"
    using assms by (subst retry_loop.simps) (auto simp: MAX_RETRIES_def numeral_3_eq_3)
  finally show ?thesis .
qed

lemma failed_attempts_3: "failed_attempts 1 (MAX_RETRIES - 1) @ [Call MAX_RETRIES] =
    [Call 1, LogRetry 1, Call 2, LogRetry 2, Call 3]"
  by (simp add: failed_attempts_def MAX_RETRIES_def upt_rec)


section \<open>Retry controller: the claims\<close>

text \<open>
  C3, as stated: when the generator succeeds, the loop yields the value the generator
  returned. It does not when that value is blank: a generator that returns one space on its
  first call makes the loop yield the fallback message.
\<close>

theorem retry_blank_counterexample:
  "fst (retry_loop (\<lambda>attempt. Inr (js '' '')) 1 []) \<noteq> Inr (js '' '')"
  by (subst retry_loop.simps)
     (simp add: MAX_RETRIES_def js_def trim_def isWhiteSpace_def desculpe_nao_entendi_def)

text \<open>
  C3, amended. With the bound of three attempts: if the generator throws on its first \<open>k\<close>
  calls and returns \<open>v\<close> on call \<open>k + 1\<close>, the loop makes exactly \<open>k + 1\<close> calls, logs the
  attempt number of each failed one, and yields \<open>v\<close>, or the fallback message when \<open>v\<close> is
  blank. If the generator throws on every call, the loop makes exactly three calls, logs the
  first two attempts and throws the error of the third. The trace holds nothing but the calls
  and the log lines: no delay separates two attempts.
\<close>

theorem retry_loop_contract:
  "(k < MAX_RETRIES \<and> (\<forall>i. 1 \<le> i \<and> i \<le> k \<longrightarrow> isl (generate i)) \<and> generate (k + 1) = Inr v \<longrightarrow>
      fst (retry_loop generate 1 []) = Inr (if trim v = [] then desculpe_nao_entendi else v) \<and>
      snd (retry_loop generate 1 []) = failed_attempts 1 k @ [Call (k + 1)] \<and>
      calls (snd (retry_loop generate 1 [])) = k + 1) \<and>
   ((\<forall>i. 1 \<le> i \<and> i \<le> MAX_RETRIES \<longrightarrow> generate i = Inl (err i)) \<longrightarrow>
      retry_loop generate 1 [] =
        (Inl (err 3), [Call 1, LogRetry 1, Call 2, LogRetry 2, Call 3]) \<and>
      calls (snd (retry_loop generate 1 [])) = MAX_RETRIES)"
proof (intro conjI impI)
  assume a: "k < MAX_RETRIES \<and> (\<forall>i. 1 \<le> i \<and> i \<le> k \<longrightarrow> isl (generate i)) \<and> generate (k + 1) = Inr v"
  then have r: "retry_loop generate 1 [] =
      (Inr (if trim v = [] then desculpe_nao_entendi else v), failed_attempts 1 k @ [Call (k + 1)])"
    by (intro retry_loop_success) auto
  show "fst (retry_loop generate 1 []) = Inr (if trim v = [] then desculpe_nao_entendi else v)"
    unfolding r by simp
  show "snd (retry_loop generate 1 []) = failed_attempts 1 k @ [Call (k + 1)]"
    unfolding r by simp
  show "calls (snd (retry_loop generate 1 [])) = k + 1"
    unfolding r by (simp add: calls_append calls_failed_attempts)
next
  assume a: "\<forall>i. 1 \<le> i \<and> i \<le> MAX_RETRIES \<longrightarrow> generate i = Inl (err i)"
  have r: "retry_loop generate 1 [] =
      (Inl (err MAX_RETRIES), failed_attempts 1 (MAX_RETRIES - 1) @ [Call MAX_RETRIES])"
    using a by (rule retry_loop_exhausted)
  show "retry_loop generate 1 [] = (Inl (err 3), [Call 1, LogRetry 1, Call 2, LogRetry 2, Call 3])"
    unfolding r failed_attempts_3 by (simp add: MAX_RETRIES_def)
  show "calls (snd (retry_loop generate 1 [])) = MAX_RETRIES"
    unfolding r failed_attempts_3 by (simp add: MAX_RETRIES_def)
qed

theorem retry_loop_contract_witness:
  "(2::nat) < MAX_RETRIES \<and>
   retry_loop (\<lambda>i. if i \<le> 2 then Inl (Error ''down'') else Inr (js ''hi'')) 1 [] =
     (Inr (js ''hi''), [Call 1, LogRetry 1, Call 2, LogRetry 2, Call 3]) \<and>
   calls (snd (retry_loop (\<lambda>i. if i \<le> 2 then Inl (Error ''down'') else Inr (js ''hi'')) 1 [])) = 3 \<and>
   retry_loop (\<lambda>i. Inl (Error (if i = 3 then ''last'' else ''early''))) 1 [] =
     (Inl (Error ''last''), [Call 1, LogRetry 1, Call 2, LogRetry 2, Call 3])"
proof -
  let ?g = "\<lambda>i::nat. if i \<le> 2 then Inl (Error ''down'') else Inr (js ''hi'') :: error + jsstring"
  let ?err = "\<lambda>i::nat. Error (if i = 3 then ''last'' else ''early'')"
  have k: "(2::nat) < MAX_RETRIES" by (simp add: MAX_RETRIES_def)
  have f: "\<forall>i. 1 \<le> i \<and> i \<le> 2 \<longrightarrow> isl (?g i)" by simp
  have v: "?g (2 + 1) = Inr (js ''hi'')" by simp
  have t: "trim (js ''hi'') \<noteq> []" by (simp add: js_def trim_def isWhiteSpace_def)
  have tr: "failed_attempts 1 2 @ [Call (2 + 1)] = [Call 1, LogRetry 1, Call 2, LogRetry 2, Call 3]"
    by (simp add: failed_attempts_def upt_rec)
  have 1: "fst (retry_loop ?g 1 []) = Inr (js ''hi'')"
    and 2: "snd (retry_loop ?g 1 []) = [Call 1, LogRetry 1, Call 2, LogRetry 2, Call 3]"
    and 3: "calls (snd (retry_loop ?g 1 [])) = 3"
    using retry_loop_contract [of 2 ?g "js ''hi''"] k f v t tr by simp_all
  have 4: "retry_loop (\<lambda>i. Inl (?err i)) 1 [] =
      (Inl (Error ''last''), [Call 1, LogRetry 1, Call 2, LogRetry 2, Call 3])"
    using retry_loop_contract [of 0 "\<lambda>i. Inl (?err i)" "[]" ?err] by simp
  show ?thesis
    using k 1 2 3 4 by (simp add: prod_eq_iff)
qed


section \<open>Debounce scheduler: lemmas\<close>

lemma advance_fields [simp]:
  "messageBufferPerChatId (advance t s) = messageBufferPerChatId s"
  "messageTimeouts (advance t s) = messageTimeouts s"
  "next_timer (advance t s) = next_timer s"
  "outbox (advance t s) = outbox s"
  "files (advance t s) = files s"
  "now (advance t s) = max (now s) t"
  "timers (advance t s) = filter (\<lambda>tm. \<not> t_deadline tm \<le> max (now s) t) (timers s)"
  "running (advance t s) = running s @ map (fire s) (filter (\<lambda>tm. t_deadline tm \<le> max (now s) t) (timers s))"
  "started (advance t s) = started s @ map (fire s) (filter (\<lambda>tm. t_deadline tm \<le> max (now s) t) (timers s))"
  by (simp_all add: advance_def Let_def)

lemma on_message_fields [simp]:
  "messageBufferPerChatId (on_message c x target s) = (messageBufferPerChatId s)(c \<mapsto> x)"
  "messageTimeouts (on_message c x target s) = (messageTimeouts s)(c \<mapsto> next_timer s)"
  "next_timer (on_message c x target s) = next_timer s + 1"
  "outbox (on_message c x target s) = outbox s"
  "files (on_message c x target s) = files s"
  "now (on_message c x target s) = now s"
  "running (on_message c x target s) = running s"
  "started (on_message c x target s) = started s"
  "timers (on_message c x target s) =
     (case messageTimeouts s c of Some h \<Rightarrow> filter (\<lambda>tm. t_id tm \<noteq> h) (timers s) | None \<Rightarrow> timers s) @
     [\<lparr>t_id = next_timer s, t_deadline = now s + settle_delay, t_chatId = c, t_target = target\<rparr>]"
  by (simp_all add: on_message_def setTimeout_def clearTimeout_def Let_def split: option.splits)

lemma complete_fields [simp]:
  "messageBufferPerChatId (complete env p s) = (messageBufferPerChatId s)(p_chatId p := None)"
  "messageTimeouts (complete env p s) = (messageTimeouts s)(p_chatId p := None)"
  "next_timer (complete env p s) = next_timer s"
  "files (complete env p s) = files s"
  "now (complete env p s) = now s"
  "timers (complete env p s) = timers s"
  "running (complete env p s) = filter (\<lambda>q. p_id q \<noteq> p_id p) (running s)"
  "started (complete env p s) = started s"
  "outbox (complete env p s) = outbox s @ (case handed_over (settle env p) of None \<Rightarrow> [] | Some b \<Rightarrow> [b])"
  by (simp_all add: complete_def)

lemma step_Receive_Some:
  "onAnyMessage env io m (files (advance t s)) = (Some (c, x, target), fs') \<Longrightarrow>
   step env (Receive t io m) s = on_message c x target ((advance t s)\<lparr>files := fs'\<rparr>)"
  by simp

lemma step_Receive_None:
  "onAnyMessage env io m (files (advance t s)) = (None, fs') \<Longrightarrow>
   step env (Receive t io m) s = (advance t s)\<lparr>files := fs'\<rparr>"
  by simp

lemma step_Complete_Some:
  "find (\<lambda>p. p_id p = h) (running (advance t s)) = Some p \<Longrightarrow>
   step env (Complete t h) s = complete env p (advance t s)"
  by simp
lemma arrival_keeps_running: "running (step env (Receive t io m) s) = running (advance t s)"
  by (cases "onAnyMessage env io m (files s)") (auto simp: Let_def split: option.splits)

lemma sched_inv_init: "sched_inv (init fs0)"
  by (simp add: sched_inv_def init_def)

lemma sched_inv_files: "sched_inv (s\<lparr>files := f\<rparr>) = sched_inv s"
  by (simp add: sched_inv_def)

lemma sched_inv_advance: "sched_inv s \<Longrightarrow> sched_inv (advance t s)"
  by (auto simp: sched_inv_def fire_def)

lemma sched_inv_on_message: "sched_inv s \<Longrightarrow> sched_inv (on_message c x target s)"
  by (auto simp: sched_inv_def less_Suc_eq split: option.splits)

lemma sched_inv_complete: "sched_inv s \<Longrightarrow> sched_inv (complete env p s)"
  by (auto simp: sched_inv_def)

lemma sched_inv_step: "sched_inv s \<Longrightarrow> sched_inv (step env e s)"
proof (cases e)
  case (Receive t io m)
  assume i: "sched_inv s"
  obtain r fs' where o: "onAnyMessage env io m (files (advance t s)) = (r, fs')"
    by (cases "onAnyMessage env io m (files (advance t s))")
  show ?thesis
  proof (cases r)
    case None
    then show ?thesis
      using i o Receive by (simp add: sched_inv_files sched_inv_advance)
  next
    case (Some a)
    obtain c x target where a: "a = (c, x, target)" by (cases a)
    show ?thesis
      using i o Receive Some a
      by (simp add: sched_inv_on_message sched_inv_files sched_inv_advance)
  qed
next
  case (Complete t h)
  assume i: "sched_inv s"
  then show ?thesis
    using Complete
    by (cases "find (\<lambda>p. p_id p = h) (running (advance t s))")
       (simp_all add: sched_inv_complete sched_inv_advance Let_def del: advance_fields)
next
  case (Tick t)
  assume "sched_inv s"
  then show ?thesis using Tick by (simp add: sched_inv_advance)
qed

lemma sched_inv_run: "sched_inv s \<Longrightarrow> sched_inv (run env es s)"
  by (induction es arbitrary: s) (simp_all add: sched_inv_step)


section \<open>Debounce scheduler: the claims\<close>

lemma completion_deletes_entries:
  assumes "find (\<lambda>p. p_id p = h) (running (advance t s)) = Some p"
  shows "messageBufferPerChatId (step env (Complete t h) s) (p_chatId p) = None"
    and "messageTimeouts (step env (Complete t h) s) (p_chatId p) = None"
  unfolding step_Complete_Some [OF assms] by simp_all

text \<open>
  C4. When a timer callback ends, both entries of its chat are meant to be gone, so that the
  next message of the chat starts a cycle of its own. The source deletes both entries for
  whatever backend and relay (lemma \<open>completion_deletes_entries\<close>), but a timer that a message
  armed while the callback was running stays armed, and with the handle deleted the next
  message cannot clear it. Chat \<open>c\<close> gets \<open>a\<close> at 0 ms and \<open>b1\<close> at 8000 ms, and the
  callback of \<open>a\<close> ends at 10000 ms: both entries are absent and timer 1, due at 15000 ms, is
  armed. The next message \<open>n\<close>, at 12000 ms, is then read by the callback of timer 1 at
  15000 ms, 3000 ms after it arrived, while its own timer 2 is still armed for 19000 ms.
\<close>

theorem stale_timer_survives_completion:
  "messageBufferPerChatId (run example_env
      [Receive 0 io_none (chat_message ''c'' ''a''),
       Receive 8000 io_none (chat_message ''c'' ''b1''),
       Complete 10000 0] (init Map.empty)) ''c'' = None \<and>
   messageTimeouts (run example_env
      [Receive 0 io_none (chat_message ''c'' ''a''),
       Receive 8000 io_none (chat_message ''c'' ''b1''),
       Complete 10000 0] (init Map.empty)) ''c'' = None \<and>
   map (\<lambda>tm. (t_id tm, t_deadline tm)) (timers_for ''c'' (run example_env
      [Receive 0 io_none (chat_message ''c'' ''a''),
       Receive 8000 io_none (chat_message ''c'' ''b1''),
       Complete 10000 0] (init Map.empty))) = [(1, 15000)] \<and>
   map (\<lambda>p. (p_id p, currentMessage p)) (started (run example_env
      [Receive 0 io_none (chat_message ''c'' ''a''),
       Receive 8000 io_none (chat_message ''c'' ''b1''),
       Complete 10000 0,
       Receive 12000 io_none (chat_message ''c'' ''n''),
       Tick 15000] (init Map.empty))) = [(0, Some (js ''a'')), (1, Some (js ''n''))] \<and>
   map (\<lambda>tm. (t_id tm, t_deadline tm)) (timers_for ''c'' (run example_env
      [Receive 0 io_none (chat_message ''c'' ''a''),
       Receive 8000 io_none (chat_message ''c'' ''b1''),
       Complete 10000 0,
       Receive 12000 io_none (chat_message ''c'' ''n''),
       Tick 15000] (init Map.empty))) = [(2, 19000)]"
  by (simp add: sched_defs fixture_defs timers_for_def)

text \<open>
  C5, as stated: a chat has a buffer entry exactly when it has a timer that is armed and not
  yet expired. It does not: once the timer of a chat has fired, its callback is running, no
  timer of that chat is armed, and the buffer entry is still there until the callback ends.
\<close>

theorem buffer_entry_outlives_timer:
  "messageBufferPerChatId
     (run example_env [Receive 0 io_none (chat_message ''c'' ''a''), Tick 7000] (init Map.empty)) ''c'' =
     Some (js ''a'') \<and>
   timers_for ''c''
     (run example_env [Receive 0 io_none (chat_message ''c'' ''a''), Tick 7000] (init Map.empty)) = [] \<and>
   map currentMessage
     (running (run example_env [Receive 0 io_none (chat_message ''c'' ''a''), Tick 7000] (init Map.empty))) =
     [Some (js ''a'')]"
  by (simp add: sched_defs fixture_defs timers_for_def)

text \<open>
  C5, amended. In every state the process reaches, a chat has a buffer entry exactly when it
  has an entry in the timer map. The expiry of timers changes neither map. A message that
  reaches the scheduler leaves no armed timer with the handle that was stored for its chat,
  stores a new handle, makes its content the buffer of the chat, and arms the timer of the new
  handle for the full delay; the end of a timer callback deletes both entries of its chat
  together.
\<close>

theorem maps_have_same_keys:
  "let s = run env es (init fs0) in
     ((messageBufferPerChatId s c = None) = (messageTimeouts s c = None)) \<and>
     messageBufferPerChatId (step env (Tick t) s) = messageBufferPerChatId s \<and>
     messageTimeouts (step env (Tick t) s) = messageTimeouts s \<and>
     (onAnyMessage env io m (files (advance t s)) = (Some (c, x, target), fs') \<longrightarrow>
        (let s' = step env (Receive t io m) s in
           (\<forall>h. messageTimeouts s c = Some h \<longrightarrow> h \<notin> t_id ` set (timers s')) \<and>
           messageTimeouts s' c = Some (next_timer s) \<and>
           messageBufferPerChatId s' c = Some x \<and>
           last (timers s') =
             \<lparr>t_id = next_timer s, t_deadline = max (now s) t + settle_delay,
              t_chatId = c, t_target = target\<rparr>)) \<and>
     (find (\<lambda>p. p_id p = h) (running (advance t s)) = Some p \<longrightarrow>
        (let s' = step env (Complete t h) s in
           messageBufferPerChatId s' (p_chatId p) = None \<and>
           messageTimeouts s' (p_chatId p) = None))"
proof -
  define s where "s = run env es (init fs0)"
  have i: "sched_inv s"
    unfolding s_def by (intro sched_inv_run sched_inv_init)
  have keys: "(messageBufferPerChatId s c = None) = (messageTimeouts s c = None)"
    using i by (simp add: sched_inv_def)
  have tick: "messageBufferPerChatId (step env (Tick t) s) = messageBufferPerChatId s"
    "messageTimeouts (step env (Tick t) s) = messageTimeouts s"
    by simp_all
  have arr: "(\<forall>h. messageTimeouts s c = Some h \<longrightarrow> h \<notin> t_id ` set (timers s')) \<and>
      messageTimeouts s' c = Some (next_timer s) \<and> messageBufferPerChatId s' c = Some x \<and>
      last (timers s') =
        \<lparr>t_id = next_timer s, t_deadline = max (now s) t + settle_delay,
         t_chatId = c, t_target = target\<rparr>"
    if o: "onAnyMessage env io m (files (advance t s)) = (Some (c, x, target), fs')"
      and s': "s' = step env (Receive t io m) s" for s'
  proof -
    have e: "s' = on_message c x target ((advance t s)\<lparr>files := fs'\<rparr>)"
      unfolding s' using o by (rule step_Receive_Some)
    have "h \<notin> t_id ` set (timers s')" if "messageTimeouts s c = Some h" for h
    proof -
      have "h < next_timer s" using i that by (auto simp: sched_inv_def)
      then show ?thesis unfolding e using that by auto
    qed
    then show ?thesis unfolding e by simp
  qed
  have com: "messageBufferPerChatId s' (p_chatId p) = None \<and> messageTimeouts s' (p_chatId p) = None"
    if f: "find (\<lambda>p. p_id p = h) (running (advance t s)) = Some p"
      and s': "s' = step env (Complete t h) s" for s'
    unfolding s' step_Complete_Some [OF f] by simp
  show ?thesis
    unfolding Let_def s_def [symmetric] using keys tick arr com by blast
qed

theorem maps_have_same_keys_witness:
  "messageTimeouts (run example_env [Receive 0 io_none (chat_message ''c'' ''a'')] (init Map.empty)) ''c'' = Some 0 \<and>
   messageBufferPerChatId (run example_env [Receive 0 io_none (chat_message ''c'' ''a'')] (init Map.empty)) ''c'' =
     Some (js ''a'') \<and>
   messageTimeouts (run example_env [] (init Map.empty)) ''c'' = None \<and>
   messageBufferPerChatId (run example_env [] (init Map.empty)) ''c'' = None \<and>
   messageTimeouts (run example_env [Receive 0 io_none (chat_message ''c'' ''a''), Tick 7000] (init Map.empty)) ''c'' =
     Some 0 \<and>
   messageBufferPerChatId (run example_env [Receive 0 io_none (chat_message ''c'' ''a''), Tick 7000] (init Map.empty)) ''c'' =
     Some (js ''a'') \<and>
   0 \<notin> t_id ` set (timers (run example_env
     [Receive 0 io_none (chat_message ''c'' ''a''), Receive 3000 io_none (chat_message ''c'' ''b'')] (init Map.empty))) \<and>
   messageTimeouts (run example_env
     [Receive 0 io_none (chat_message ''c'' ''a''), Receive 3000 io_none (chat_message ''c'' ''b'')] (init Map.empty)) ''c'' =
     Some 1 \<and>
   find (\<lambda>p. p_id p = 0)
     (running (advance 7000 (run example_env [Receive 0 io_none (chat_message ''c'' ''a'')] (init Map.empty)))) =
     Some \<lparr>p_id = 0, p_chatId = ''c'', currentMessage = Some (js ''a''), p_target = ''c''\<rparr> \<and>
   messageBufferPerChatId (run example_env
     [Receive 0 io_none (chat_message ''c'' ''a''), Complete 7000 0] (init Map.empty)) ''c'' = None \<and>
   messageTimeouts (run example_env
     [Receive 0 io_none (chat_message ''c'' ''a''), Complete 7000 0] (init Map.empty)) ''c'' = None"
proof -
  let ?es = "[Receive 0 io_none (chat_message ''c'' ''a'')]"
  let ?s = "run example_env ?es (init Map.empty)"
  let ?p = "\<lparr>p_id = 0, p_chatId = ''c'', currentMessage = Some (js ''a''), p_target = ''c''\<rparr>"
  have h: "messageTimeouts ?s ''c'' = Some 0"
    and b: "messageBufferPerChatId ?s ''c'' = Some (js ''a'')"
    and n: "next_timer ?s = 1"
    and e: "messageTimeouts (run example_env [] (init Map.empty)) ''c'' = None"
    by (simp_all add: sched_defs fixture_defs)
  have o: "onAnyMessage example_env io_none (chat_message ''c'' ''b'') (files (advance 3000 ?s)) =
      (Some (''c'', js ''b'', ''c''), Map.empty)"
    by (simp add: sched_defs fixture_defs)
  have f: "find (\<lambda>p. p_id p = 0) (running (advance 7000 ?s)) = Some ?p"
    by (simp add: sched_defs fixture_defs)
  have 0: "(messageBufferPerChatId (run example_env [] (init Map.empty)) ''c'' = None) =
      (messageTimeouts (run example_env [] (init Map.empty)) ''c'' = None)"
    using maps_have_same_keys [where env = example_env and es = "[]" and ?fs0.0 = Map.empty and c = "''c''"]
    by (simp add: Let_def)
  note A = maps_have_same_keys [where env = example_env and es = ?es and ?fs0.0 = Map.empty
      and c = "''c''" and io = io_none and m = "chat_message ''c'' ''b''" and t = 3000
      and x = "js ''b''" and target = "''c''" and fs' = Map.empty, unfolded Let_def,
      THEN conjunct2, THEN conjunct2, THEN conjunct2, THEN conjunct1, THEN mp, OF o]
  have 1: "0 \<notin> t_id ` set (timers (step example_env (Receive 3000 io_none (chat_message ''c'' ''b'')) ?s))"
    using A [THEN conjunct1, THEN spec, THEN mp, OF h] .
  have a2: "messageTimeouts (step example_env (Receive 3000 io_none (chat_message ''c'' ''b'')) ?s) ''c'' = Some 1"
    using A [THEN conjunct2, THEN conjunct1] unfolding n .
  note K = maps_have_same_keys [where env = example_env and es = ?es and ?fs0.0 = Map.empty
      and t = 7000 and h = 0 and p = ?p, unfolded Let_def]
  have k1: "messageBufferPerChatId (step example_env (Tick 7000) ?s) ''c'' = Some (js ''a'')"
    using K [THEN conjunct2, THEN conjunct1] b by (simp only:)
  have k2: "messageTimeouts (step example_env (Tick 7000) ?s) ''c'' = Some 0"
    using K [THEN conjunct2, THEN conjunct2, THEN conjunct1] h by (simp only:)
  note B = K [THEN conjunct2, THEN conjunct2, THEN conjunct2, THEN conjunct2, THEN mp, OF f]
  have 2: "messageBufferPerChatId (step example_env (Complete 7000 0) ?s) ''c'' = None \<and>
      messageTimeouts (step example_env (Complete 7000 0) ?s) ''c'' = None"
    using B by simp
  show ?thesis
    using h b e 0 1 a2 k1 k2 2 f by (simp del: step.simps)
qed

text \<open>
  C1. A burst whose messages follow each other within the delay is meant to be answered by one
  timer callback, run on the last message. The source breaks this when the callback of the
  previous burst is still running: its \<^verbatim>\<open>finally\<close> block deletes the timer handle that the
  first message of the new burst stored, so the second message finds no handle to clear and
  both timers fire. Chat \<open>c\<close> gets \<open>a\<close> at 0 ms, whose callback runs from 7000 ms to
  10000 ms, and the burst \<open>b1\<close>, \<open>b2\<close> at 8000 ms and 12000 ms: the callbacks of handles 1
  and 2 both start, at 15000 ms and 19000 ms, each on \<open>b2\<close>.
\<close>

theorem overlapping_burst_settles_twice:
  "map (\<lambda>p. (p_id p, p_chatId p, currentMessage p))
     (started (run example_env
        [Receive 0 io_none (chat_message ''c'' ''a''),
         Receive 8000 io_none (chat_message ''c'' ''b1''),
         Complete 10000 0,
         Receive 12000 io_none (chat_message ''c'' ''b2''),
         Tick 15000] (init Map.empty))) =
     [(0, ''c'', Some (js ''a'')), (1, ''c'', Some (js ''b2''))] \<and>
   map (\<lambda>p. (p_id p, p_chatId p, currentMessage p))
     (started (run example_env
        [Receive 0 io_none (chat_message ''c'' ''a''),
         Receive 8000 io_none (chat_message ''c'' ''b1''),
         Complete 10000 0,
         Receive 12000 io_none (chat_message ''c'' ''b2''),
         Tick 15000,
         Tick 19000] (init Map.empty))) =
     [(0, ''c'', Some (js ''a'')), (1, ''c'', Some (js ''b2'')), (2, ''c'', Some (js ''b2''))]"
  by (simp add: sched_defs fixture_defs)

text \<open>
  C2. A message that arrives while the callback of the previous timer is running is meant to
  start a cycle of its own, whose callback works on that message. The running callback is
  indeed left alone (it keeps the content it read), but when it ends its \<^verbatim>\<open>finally\<close> block
  deletes the buffer entry that the new message wrote: chat \<open>c\<close> gets \<open>a\<close> at 0 ms and \<open>b\<close>
  at 8000 ms, the callback of \<open>a\<close> ends at 10000 ms, and the callback of handle 1, started
  at 15000 ms, reads \<^verbatim>\<open>undefined\<close> from the buffer.
\<close>

theorem overlapping_cycle_loses_buffer:
  "map (\<lambda>p. (p_id p, p_chatId p, currentMessage p))
     (running (run example_env
        [Receive 0 io_none (chat_message ''c'' ''a''),
         Receive 8000 io_none (chat_message ''c'' ''b'')] (init Map.empty))) =
     [(0, ''c'', Some (js ''a''))] \<and>
   map (\<lambda>p. (p_id p, p_chatId p, currentMessage p))
     (started (run example_env
        [Receive 0 io_none (chat_message ''c'' ''a''),
         Receive 8000 io_none (chat_message ''c'' ''b''),
         Complete 10000 0,
         Tick 15000] (init Map.empty))) =
     [(0, ''c'', Some (js ''a'')), (1, ''c'', None)]"
  by (simp add: sched_defs fixture_defs)


section \<open>Settle pipeline: the claims\<close>

lemma splitMessages_fallback: "splitMessages desculpe_nao_entendi = [desculpe_nao_entendi]"
  by (simp add: splitMessages_def desculpe_nao_entendi_def js_def trim_def isWhiteSpace_def)

lemma LogRetry_failed_attempts: "LogRetry n \<in> set (failed_attempts a k) \<longleftrightarrow> a \<le> n \<and> n < a + k"
  by (auto simp: failed_attempts_def)

text \<open>
  C7. When an attempt returns a string that is empty or all white space (after \<open>k\<close> attempts
  that threw), the loop ends there with the fallback message as the answer: the attempt is not
  logged as failed, no further call is made, and the batch handed to the delivery relay is
  the fallback message alone.
\<close>

theorem blank_answer_replaced:
  assumes "k < MAX_RETRIES"
    and "\<forall>i. 1 \<le> i \<and> i \<le> k \<longrightarrow> isl (generate_of env p i)"
    and "generate_of env p (k + 1) = Inr v"
    and "trim v = []"
  shows "retry_loop (generate_of env p) 1 [] =
      (Inr desculpe_nao_entendi, failed_attempts 1 k @ [Call (k + 1)]) \<and>
    effects (settle env p) = failed_attempts 1 k @ [Call (k + 1)] \<and>
    calls (effects (settle env p)) = k + 1 \<and>
    LogRetry (k + 1) \<notin> set (effects (settle env p)) \<and>
    handed_over (settle env p) = Some ([desculpe_nao_entendi], p_target p)"
proof -
  have r: "retry_loop (generate_of env p) 1 [] =
      (Inr desculpe_nao_entendi, failed_attempts 1 k @ [Call (k + 1)])"
    using retry_loop_success [OF assms(1-3)] assms(4) by simp
  have s: "settle env p =
      \<lparr>effects = failed_attempts 1 k @ [Call (k + 1)],
       handed_over = Some ([desculpe_nao_entendi], p_target p),
       logged = sendMessagesWithDelay env [desculpe_nao_entendi] (p_target p)\<rparr>"
    unfolding settle_def r by (simp add: splitMessages_fallback Let_def)
  show ?thesis
    unfolding s using r by (simp add: calls_append calls_failed_attempts LogRetry_failed_attempts)
qed

theorem blank_answer_replaced_witness:
  "(1::nat) < MAX_RETRIES \<and>
   generate_of blank_env \<lparr>p_id = 0, p_chatId = ''c'', currentMessage = Some (js ''a''), p_target = ''c''\<rparr> 1 =
     Inl (Error ''busy'') \<and>
   generate_of blank_env \<lparr>p_id = 0, p_chatId = ''c'', currentMessage = Some (js ''a''), p_target = ''c''\<rparr> 2 =
     Inr (js '' \<newline> '') \<and>
   trim (js '' \<newline> '') = [] \<and>
   effects (settle blank_env \<lparr>p_id = 0, p_chatId = ''c'', currentMessage = Some (js ''a''), p_target = ''c''\<rparr>) =
     [Call 1, LogRetry 1, Call 2] \<and>
   handed_over (settle blank_env \<lparr>p_id = 0, p_chatId = ''c'', currentMessage = Some (js ''a''), p_target = ''c''\<rparr>) =
     Some ([desculpe_nao_entendi], ''c'')"
proof -
  let ?p = "\<lparr>p_id = 0, p_chatId = ''c'', currentMessage = Some (js ''a''), p_target = ''c''\<rparr>"
  have k: "(1::nat) < MAX_RETRIES" by (simp add: MAX_RETRIES_def)
  have g1: "generate_of blank_env ?p 1 = Inl (Error ''busy'')"
    and g2: "generate_of blank_env ?p 2 = Inr (js '' \<newline> '')"
    by (simp_all add: generate_of_def blank_env_def)
  have f: "\<forall>i. 1 \<le> i \<and> i \<le> 1 \<longrightarrow> isl (generate_of blank_env ?p i)"
    using g1 by (auto simp: le_antisym)
  have t: "trim (js '' \<newline> '') = []"
    by (simp add: js_def trim_def isWhiteSpace_def)
  have g2': "generate_of blank_env ?p (1 + 1) = Inr (js '' \<newline> '')"
    by (simp add: generate_of_def blank_env_def)
  have tr: "failed_attempts 1 1 @ [Call (1 + 1)] = [Call 1, LogRetry 1, Call 2]"
    by (simp add: failed_attempts_def)
  note T = blank_answer_replaced [OF k f g2' t]
  have e: "effects (settle blank_env ?p) = [Call 1, LogRetry 1, Call 2]"
    using T [THEN conjunct2, THEN conjunct1] unfolding tr .
  have d: "handed_over (settle blank_env ?p) = Some ([desculpe_nao_entendi], ''c'')"
    using T by simp
  show ?thesis
    using k g1 g2 t e d by simp
qed


section \<open>Debounce scheduler: a burst on an idle chat\<close>

lemma transcribeAudio_reply_indep:
  "fst (transcribeAudio dir io m fs) = fst (transcribeAudio dir io m fs')"
  by (simp add: transcribeAudio_def transcribeAudio_try_def unlinkSync_def Let_def
      split: sum.splits option.splits)

lemma fst_messageContent_of:
  "fst (messageContent_of env io m fs) =
     (if msg_type m = ''ptt'' \<or> msg_type m = ''audio'' then
        (case fst (transcribeAudio (dirname env) io m fs) of
           Inr text \<Rightarrow> Some text | Inl e \<Rightarrow> Some desculpe_audio)
      else if msg_type m = ''chat'' then Some (body m) else None)"
  by (simp add: messageContent_of_def split: prod.splits sum.splits)

lemma fst_onAnyMessage:
  "fst (onAnyMessage env io m fs) =
     (if fromMe m then None
      else if \<not> isGroupMsg m \<and> chatId m \<noteq> ''status@broadcast'' then
        (case fst (messageContent_of env io m fs) of
           None \<Rightarrow> None
         | Some x \<Rightarrow>
             if AI_SELECTED env = GPT \<and> initializeNewAIChatSession io \<noteq> None then None
             else Some (chatId m, x, msg_from m))
      else None)"
  by (cases "messageContent_of env io m fs") (auto simp: onAnyMessage_def split: option.splits)

lemma onAnyMessage_reaches: "fst (onAnyMessage env io m fs) = reaches_scheduler env io m"
  unfolding reaches_scheduler_def fst_onAnyMessage fst_messageContent_of
  using transcribeAudio_reply_indep [of "dirname env" io m fs Map.empty] by simp

lemma filter_fire:
  "filter (\<lambda>p. p_chatId p = c) (map (fire s) tms) =
   map (fire s) (filter (\<lambda>tm. t_chatId tm = c) tms)"
  by (induction tms) (auto simp: fire_def)

lemma for_advance:
  "timers_for c (advance t s) = filter (\<lambda>tm. \<not> t_deadline tm \<le> max (now s) t) (timers_for c s)"
  "running_for c (advance t s) =
     running_for c s @ map (fire s) (filter (\<lambda>tm. t_deadline tm \<le> max (now s) t) (timers_for c s))"
  "started_for c (advance t s) =
     started_for c s @ map (fire s) (filter (\<lambda>tm. t_deadline tm \<le> max (now s) t) (timers_for c s))"
  unfolding timers_for_def running_for_def started_for_def
  by (simp_all add: filter_fire conj_commute)

lemma for_on_message:
  "timers_for c (on_message c' x target s) =
     (case messageTimeouts s c' of
        Some h \<Rightarrow> filter (\<lambda>tm. t_id tm \<noteq> h) (timers_for c s) | None \<Rightarrow> timers_for c s) @
     (if c' = c then [\<lparr>t_id = next_timer s, t_deadline = now s + settle_delay, t_chatId = c',
        t_target = target\<rparr>] else [])"
  "running_for c (on_message c' x target s) = running_for c s"
  "started_for c (on_message c' x target s) = started_for c s"
  unfolding timers_for_def running_for_def started_for_def
  by (simp_all add: conj_commute split: option.splits)

lemma for_complete:
  "timers_for c (complete env p s) = timers_for c s"
  "running_for c (complete env p s) = filter (\<lambda>q. p_id q \<noteq> p_id p) (running_for c s)"
  "started_for c (complete env p s) = started_for c s"
  unfolding timers_for_def running_for_def started_for_def
  by (simp_all add: conj_commute)

lemma for_files:
  "timers_for c (s\<lparr>files := f\<rparr>) = timers_for c s"
  "running_for c (s\<lparr>files := f\<rparr>) = running_for c s"
  "started_for c (s\<lparr>files := f\<rparr>) = started_for c s"
  by (simp_all add: timers_for_def running_for_def started_for_def)

lemma handles_own_init: "handles_own (init fs0)"
  by (simp add: handles_own_def init_def)

lemma handles_own_files: "handles_own (s\<lparr>files := f\<rparr>) = handles_own s"
  by (simp add: handles_own_def)

lemma handles_own_advance: "handles_own s \<Longrightarrow> handles_own (advance t s)"
  by (simp add: handles_own_def)

lemma handles_own_complete: "handles_own s \<Longrightarrow> handles_own (complete env p s)"
  by (simp add: handles_own_def)

lemma handles_own_on_message:
  assumes "sched_inv s" "handles_own s"
  shows "handles_own (on_message c x target s)"
proof -
  have lt: "\<forall>tm\<in>set (timers s). t_id tm < next_timer s"
    and hl: "\<forall>c h. messageTimeouts s c = Some h \<longrightarrow> h < next_timer s"
    using assms(1) by (auto simp: sched_inv_def)
  show ?thesis
    unfolding handles_own_def
  proof (intro allI impI ballI)
    fix c' h tm
    assume m: "messageTimeouts (on_message c x target s) c' = Some h"
      and t: "tm \<in> set (timers (on_message c x target s))" and i: "t_id tm = h"
    show "t_chatId tm = c'"
    proof (cases "c' = c")
      case True
      then have "h = next_timer s" using m by simp
      then show ?thesis using t i lt True by (auto split: option.splits)
    next
      case False
      then have mh: "messageTimeouts s c' = Some h" using m by simp
      then have "h < next_timer s" using hl by blast
      then have "tm \<in> set (timers s)" using t i by (auto split: option.splits)
      then show ?thesis using assms(2) mh i unfolding handles_own_def by blast
    qed
  qed
qed

lemma handles_own_step:
  assumes "sched_inv s" "handles_own s"
  shows "handles_own (step env e s)"
proof (cases e)
  case (Receive t io m)
  obtain r fs' where o: "onAnyMessage env io m (files (advance t s)) = (r, fs')"
    by (cases "onAnyMessage env io m (files (advance t s))")
  have a: "sched_inv ((advance t s)\<lparr>files := fs'\<rparr>)" "handles_own ((advance t s)\<lparr>files := fs'\<rparr>)"
    using assms by (simp_all add: sched_inv_files sched_inv_advance handles_own_files handles_own_advance)
  show ?thesis
  proof (cases r)
    case None
    then show ?thesis using a o Receive by simp
  next
    case (Some b)
    obtain c x target where b: "b = (c, x, target)" by (cases b)
    show ?thesis
      using handles_own_on_message [OF a] o Receive Some b by simp
  qed
next
  case (Complete t h)
  then show ?thesis
    using assms(2)
    by (cases "find (\<lambda>p. p_id p = h) (running (advance t s))")
       (simp_all add: handles_own_complete handles_own_advance Let_def del: advance_fields)
next
  case (Tick t)
  then show ?thesis using assms(2) by (simp add: handles_own_advance)
qed

lemma good_run:
  "sched_inv s \<Longrightarrow> handles_own s \<Longrightarrow> sched_inv (run env es s) \<and> handles_own (run env es s)"
  by (induction es arbitrary: s) (simp_all add: sched_inv_step handles_own_step)

lemma step_Receive_reaches:
  "step env (Receive t io m) s =
     (case reaches_scheduler env io m of
        None \<Rightarrow> (advance t s)\<lparr>files := snd (onAnyMessage env io m (files s))\<rparr>
      | Some (c, x, target) \<Rightarrow>
          on_message c x target ((advance t s)\<lparr>files := snd (onAnyMessage env io m (files s))\<rparr>))"
proof -
  obtain r fs' where o: "onAnyMessage env io m (files s) = (r, fs')"
    by (cases "onAnyMessage env io m (files s)")
  then have "r = reaches_scheduler env io m"
    using onAnyMessage_reaches [of env io m "files s"] by simp
  then show ?thesis using o by (auto split: option.splits)
qed

lemma now_step: "now (step env e s) = max (now s) (time_of e)"
proof (cases e)
  case (Receive t io m)
  show ?thesis unfolding Receive step_Receive_reaches by (simp split: option.splits)
next
  case (Complete t h)
  then show ?thesis
    by (cases "find (\<lambda>p. p_id p = h) (running (advance t s))") (simp_all add: Let_def)
next
  case (Tick t)
  then show ?thesis by simp
qed

lemma advance_idle:
  assumes "idle c s"
  shows "idle c (advance t s)" and "started_for c (advance t s) = started_for c s"
  using assms by (simp_all add: idle_def for_advance)

lemma advance_armed:
  assumes "armed c x target d s" "t < d"
  shows "armed c x target d (advance t s)" and "started_for c (advance t s) = started_for c s"
  using assms by (auto simp: armed_def for_advance)

lemma advance_expiry:
  assumes "armed c x target d s"
  shows "\<exists>h. started_for c (advance d s) =
    started_for c s @ [\<lparr>p_id = h, p_chatId = c, currentMessage = Some x, p_target = target\<rparr>]"
  using assms by (auto simp: armed_def for_advance fire_def max_def)

lemma files_idle: "idle c (s\<lparr>files := f\<rparr>) = idle c s"
  by (simp add: idle_def for_files)

lemma files_armed: "armed c x target d (s\<lparr>files := f\<rparr>) = armed c x target d s"
  by (simp add: armed_def for_files)

lemma on_message_same:
  assumes "idle c s \<or> armed c x0 target0 d0 s"
  shows "armed c x target (now s + settle_delay) (on_message c x target s)"
  using assms
  by (auto simp: idle_def armed_def for_on_message settle_delay_def split: option.splits)

lemma on_message_other_idle:
  assumes "c' \<noteq> c" "idle c s"
  shows "idle c (on_message c' x target s)"
  using assms by (auto simp: idle_def for_on_message split: option.splits)

lemma on_message_other_armed:
  assumes "c' \<noteq> c" "handles_own s" "armed c y target0 d s"
  shows "armed c y target0 d (on_message c' x target s)"
proof -
  from assms(3) obtain h where h: "messageTimeouts s c = Some h"
    and t: "timers_for c s = [\<lparr>t_id = h, t_deadline = d, t_chatId = c, t_target = target0\<rparr>]"
    by (auto simp: armed_def)
  let ?tm = "\<lparr>t_id = h, t_deadline = d, t_chatId = c, t_target = target0\<rparr>"
  have "?tm \<in> set (timers_for c s)" unfolding t by simp
  then have mem: "?tm \<in> set (timers s)" by (simp add: timers_for_def)
  have "h' \<noteq> h" if "messageTimeouts s c' = Some h'" for h'
  proof
    assume "h' = h"
    then have "t_chatId ?tm = c'"
      using assms(2) that mem unfolding handles_own_def by (metis Timer.select_convs(1))
    then show False using assms(1) by simp
  qed
  then show ?thesis
    using assms(1,3) h t by (auto simp: armed_def for_on_message split: option.splits)
qed

lemma complete_other_idle: "idle c s \<Longrightarrow> idle c (complete env p s)"
  by (simp add: idle_def for_complete)

lemma complete_other_armed:
  "p_chatId p \<noteq> c \<Longrightarrow> armed c x target d s \<Longrightarrow> armed c x target d (complete env p s)"
  by (auto simp: armed_def for_complete)

lemma found_not_for:
  assumes "find (\<lambda>p. p_id p = h) (running s) = Some p" "running_for c s = []"
  shows "p_chatId p \<noteq> c"
proof
  assume "p_chatId p = c"
  moreover have "p \<in> set (running s)"
    using assms(1) by (auto simp: find_Some_iff in_set_conv_nth)
  ultimately have "p \<in> set (running_for c s)" by (simp add: running_for_def)
  then show False using assms(2) by simp
qed

lemma cycle_advance:
  assumes "cycle c a s" "\<forall>t' x target. a = Some (t', x, target) \<longrightarrow> t < t' + settle_delay"
  shows "cycle c a ((advance t s)\<lparr>files := f\<rparr>)"
    and "started_for c ((advance t s)\<lparr>files := f\<rparr>) = started_for c s"
  using assms
  by (auto simp: cycle_def files_idle files_armed advance_idle advance_armed for_files
      split: option.splits)

lemma step_cycle:
  assumes good: "sched_inv s" "handles_own s"
    and cyc: "cycle c a s"
    and tm: "now s \<le> time_of e"
    and win: "\<forall>t x target. a = Some (t, x, target) \<longrightarrow> time_of e < t + settle_delay"
  shows "cycle c (case arrival_of env c e of None \<Rightarrow> a | Some b \<Rightarrow> Some b) (step env e s)"
    and "started_for c (step env e s) = started_for c s"
proof -
  have "cycle c (case arrival_of env c e of None \<Rightarrow> a | Some b \<Rightarrow> Some b) (step env e s) \<and>
      started_for c (step env e s) = started_for c s"
  proof (cases e)
    case (Receive t io m)
    define s1 where "s1 = (advance t s)\<lparr>files := snd (onAnyMessage env io m (files s))\<rparr>"
    have w: "\<forall>t' x target. a = Some (t', x, target) \<longrightarrow> t < t' + settle_delay"
      using win Receive by simp
    have c1: "cycle c a s1" and st1: "started_for c s1 = started_for c s"
      unfolding s1_def using cycle_advance [OF cyc w] by simp_all
    have h1: "handles_own s1"
      unfolding s1_def using good(2) by (simp add: handles_own_files handles_own_advance)
    have n1: "now s1 = t" unfolding s1_def using tm Receive by (simp add: max_def)
    show ?thesis
    proof (cases "reaches_scheduler env io m")
      case None
      then show ?thesis
        unfolding Receive step_Receive_reaches using c1 st1 by (simp add: s1_def)
    next
      case (Some b)
      obtain c' x target where b: "b = (c', x, target)" by (cases b)
      have st: "step env e s = on_message c' x target s1"
        unfolding Receive step_Receive_reaches s1_def using Some b by simp
      show ?thesis
      proof (cases "c' = c")
        case True
        have "idle c s1 \<or> (\<exists>x0 target0 d0. armed c x0 target0 d0 s1)"
          using c1 by (auto simp: cycle_def split: option.splits)
        then have "armed c x target (now s1 + settle_delay) (on_message c x target s1)"
          using on_message_same by blast
        then show ?thesis
          unfolding st using True Some b Receive st1 n1
          by (simp add: cycle_def for_on_message)
      next
        case False
        have "cycle c a (on_message c' x target s1)"
          using c1 False h1
          by (auto simp: cycle_def on_message_other_idle on_message_other_armed split: option.splits)
        then show ?thesis
          unfolding st using False Some b Receive st1 by (simp add: for_on_message)
      qed
    qed
  next
    case (Complete t h)
    define s1 where "s1 = advance t s"
    have w: "\<forall>t' x target. a = Some (t', x, target) \<longrightarrow> t < t' + settle_delay"
      using win Complete by simp
    have c1: "cycle c a s1" and st1: "started_for c s1 = started_for c s"
      unfolding s1_def using cyc w
      by (auto simp: cycle_def advance_idle advance_armed split: option.splits)
    show ?thesis
    proof (cases "find (\<lambda>p. p_id p = h) (running s1)")
      case None
      then show ?thesis unfolding Complete using c1 st1 by (simp add: s1_def Let_def)
    next
      case (Some p)
      have st: "step env e s = complete env p s1"
        unfolding Complete s1_def using Some unfolding s1_def by (rule step_Complete_Some)
      have "cycle c a (complete env p s1)"
      proof (cases a)
        case None
        then show ?thesis using c1 by (simp add: cycle_def complete_other_idle)
      next
        case (Some b)
        obtain t' x target where b: "b = (t', x, target)" by (cases b)
        have ar: "armed c x target (t' + settle_delay) s1"
          using c1 Some b by (simp add: cycle_def)
        then have "running_for c s1 = []" by (simp add: armed_def)
        then have "p_chatId p \<noteq> c" using found_not_for \<open>find _ _ = Some p\<close> by blast
        then show ?thesis using ar Some b by (simp add: cycle_def complete_other_armed)
      qed
      then show ?thesis unfolding st using st1 Complete by (simp add: for_complete)
    qed
  next
    case (Tick t)
    have w: "\<forall>t' x target. a = Some (t', x, target) \<longrightarrow> t < t' + settle_delay"
      using win Tick by simp
    show ?thesis
      unfolding Tick using cyc w
      by (auto simp: cycle_def advance_idle advance_armed split: option.splits)
  qed
  then show "cycle c (case arrival_of env c e of None \<Rightarrow> a | Some b \<Rightarrow> Some b) (step env e s)"
    and "started_for c (step env e s) = started_for c s"
    by simp_all
qed

lemma run_append: "run env (es @ es') s = run env es' (run env es s)"
  by (induction es arbitrary: s) auto

lemma arrivals_append: "arrivals env c (es @ es') = arrivals env c es @ arrivals env c es'"
  by (induction es) (auto split: option.splits)

lemma last_arrival_snoc:
  "last_arrival env c (es @ [e]) =
     (case arrival_of env c e of None \<Rightarrow> last_arrival env c es | Some b \<Rightarrow> Some b)"
  by (cases "arrivals env c es")
     (auto simp: last_arrival_def arrivals_append split: option.splits list.splits)

lemma now_run_le: "now s \<le> T \<Longrightarrow> \<forall>e\<in>set es. time_of e \<le> T \<Longrightarrow> now (run env es s) \<le> T"
  by (induction es arbitrary: s) (auto simp: now_step simp del: step.simps)

lemma arrival_time: "arrival_of env c e = Some b \<Longrightarrow> fst b = time_of e"
  by (cases e) (auto split: option.splits if_splits)

lemma successively_snoc_last: "successively P (xs @ [y]) \<Longrightarrow> xs \<noteq> [] \<Longrightarrow> P (last xs) y"
  by (simp add: successively_append_iff)

lemma run_cycle:
  assumes good: "sched_inv s" "handles_own s" and idle: "idle c s"
  shows "sorted (map time_of es) \<Longrightarrow> \<forall>e\<in>set es. now s \<le> time_of e \<Longrightarrow>
    successively (\<lambda>t t'. t' < t + settle_delay) (map fst (arrivals env c es)) \<Longrightarrow>
    \<forall>a. last_arrival env c es = Some a \<longrightarrow> (\<forall>e\<in>set es. time_of e < fst a + settle_delay) \<Longrightarrow>
    cycle c (last_arrival env c es) (run env es s) \<and>
    started_for c (run env es s) = started_for c s"
proof (induction es rule: rev_induct)
  case Nil
  show ?case using idle by (simp add: last_arrival_def cycle_def)
next
  case (snoc e es)
  let ?s = "run env es s"
  have sorted: "sorted (map time_of es)" and le: "\<forall>e'\<in>set es. time_of e' \<le> time_of e"
    using snoc.prems(1) by (auto simp: sorted_append)
  have ge: "\<forall>e'\<in>set es. now s \<le> time_of e'" and ge_e: "now s \<le> time_of e"
    using snoc.prems(2) by auto
  have succ: "successively (\<lambda>t t'. t' < t + settle_delay) (map fst (arrivals env c es))"
    using snoc.prems(3) by (simp add: arrivals_append successively_append_iff)
  have win_e: "time_of e < fst a + settle_delay" if a: "last_arrival env c es = Some a" for a
  proof (cases "arrival_of env c e")
    case None
    then have "last_arrival env c (es @ [e]) = Some a" using a by (simp add: last_arrival_snoc)
    then show ?thesis using snoc.prems(4) by auto
  next
    case (Some b)
    from a obtain a0 as where as: "arrivals env c es = a0 # as" and la: "a = last (a0 # as)"
      by (auto simp: last_arrival_def split: list.splits)
    have "arrivals env c (es @ [e]) = arrivals env c es @ [b]"
      using Some by (simp add: arrivals_append)
    then have "successively (\<lambda>t t'. t' < t + settle_delay) (map fst (a0 # as) @ [fst b])"
      using snoc.prems(3) as by simp
    then have "fst b < last (map fst (a0 # as)) + settle_delay"
      by (rule successively_snoc_last) simp
    then have "fst b < fst a + settle_delay"
      unfolding la by (simp only: last_map list.distinct not_False_eq_True)
    then show ?thesis using arrival_time [OF Some] by simp
  qed
  have win: "\<forall>a. last_arrival env c es = Some a \<longrightarrow> (\<forall>e'\<in>set es. time_of e' < fst a + settle_delay)"
    using win_e le by fastforce
  have IH: "cycle c (last_arrival env c es) ?s" "started_for c ?s = started_for c s"
    using snoc.IH [OF sorted ge succ win] by simp_all
  have g: "sched_inv ?s" "handles_own ?s"
    using good_run [OF good] by simp_all
  have n: "now ?s \<le> time_of e"
    using now_run_le [OF ge_e le] .
  have w: "\<forall>t x target. last_arrival env c es = Some (t, x, target) \<longrightarrow> time_of e < t + settle_delay"
    using win_e by fastforce
  show ?case
    unfolding run_append last_arrival_snoc
    using step_cycle [OF g IH(1) n w, of env] IH(2) by simp
qed

text \<open>
  A burst on an idle chat. Let the process have reached a state in which chat \<open>c\<close> is idle,
  and let events follow in the order of their times, among them at least one arrival for \<open>c\<close>,
  each arrival for \<open>c\<close> less than the delay after the one before, and every event before the
  timer of the last arrival (at \<open>t\<close>, with content \<open>x\<close>) is due; the other events may be
  messages of other chats, messages that are dropped, ends of callbacks and ticks. Then no
  callback of \<open>c\<close> starts during these events, and at \<open>t\<close> plus the delay exactly one starts,
  which reads \<open>x\<close> from the buffer.
\<close>

theorem burst_from_idle:
  assumes reach: "s = run env es0 (init fs0)"
    and idle: "idle c s"
    and order: "sorted (map time_of es)" "\<forall>e\<in>set es. now s \<le> time_of e"
    and burst: "arrivals env c es = as @ [(t, x, target)]"
    and window: "successively (\<lambda>t t'. t' < t + settle_delay) (map fst (arrivals env c es))"
    and before: "\<forall>e\<in>set es. time_of e < t + settle_delay"
  shows "started_for c (run env es s) = started_for c s \<and>
    (\<exists>h. started_for c (run env (es @ [Tick (t + settle_delay)]) s) =
       started_for c s @ [\<lparr>p_id = h, p_chatId = c, currentMessage = Some x, p_target = target\<rparr>])"
proof -
  have good: "sched_inv s" "handles_own s"
    unfolding reach using good_run [OF sched_inv_init handles_own_init] by simp_all
  have la: "last_arrival env c es = Some (t, x, target)"
    unfolding last_arrival_def burst by (cases as) simp_all
  have "cycle c (last_arrival env c es) (run env es s) \<and>
      started_for c (run env es s) = started_for c s"
    using run_cycle [OF good idle order window] la before by simp
  then have ar: "armed c x target (t + settle_delay) (run env es s)"
    and st: "started_for c (run env es s) = started_for c s"
    by (simp_all add: la cycle_def)
  show ?thesis
    using advance_expiry [OF ar] st by (simp add: run_append)
qed

lemma burst_from_idle_example:
  "idle ''c'' (init Map.empty) \<and>
   arrivals example_env ''c''
     [Receive 0 io_none (chat_message ''c'' ''a''), Receive 3000 io_none (chat_message ''d'' ''x''),
      Receive 5000 io_none (chat_message ''c'' ''b'')] =
     [(0, js ''a'', ''c''), (5000, js ''b'', ''c'')] \<and>
   started_for ''c'' (run example_env
     [Receive 0 io_none (chat_message ''c'' ''a''), Receive 3000 io_none (chat_message ''d'' ''x''),
      Receive 5000 io_none (chat_message ''c'' ''b'')] (init Map.empty)) = [] \<and>
   map currentMessage (started_for ''c'' (run example_env
     [Receive 0 io_none (chat_message ''c'' ''a''), Receive 3000 io_none (chat_message ''d'' ''x''),
      Receive 5000 io_none (chat_message ''c'' ''b''), Tick 12000] (init Map.empty))) = [Some (js ''b'')]"
proof -
  let ?es = "[Receive 0 io_none (chat_message ''c'' ''a''), Receive 3000 io_none (chat_message ''d'' ''x''),
      Receive 5000 io_none (chat_message ''c'' ''b'')]"
  let ?s = "init Map.empty"
  have r: "?s = run example_env [] (init Map.empty)" by simp
  have i: "idle ''c'' ?s" and e: "started_for ''c'' ?s = []"
    by (simp_all add: idle_def timers_for_def running_for_def started_for_def init_def)
  have a: "arrivals example_env ''c'' ?es = [(0, js ''a'', ''c'')] @ [(5000, js ''b'', ''c'')]"
    by (simp add: reaches_scheduler_def onAnyMessage_def messageContent_of_def fixture_defs)
  have o: "sorted (map time_of ?es)" "\<forall>e\<in>set ?es. now ?s \<le> time_of e"
    by (simp_all add: init_def)
  have w: "successively (\<lambda>t t'. t' < t + settle_delay) (map fst (arrivals example_env ''c'' ?es))"
    unfolding a by (simp add: settle_delay_def)
  have b: "\<forall>e\<in>set ?es. time_of e < 5000 + settle_delay"
    by (simp add: settle_delay_def)
  note T = burst_from_idle [OF r i o a w b, unfolded e]
  have t: "5000 + settle_delay = 12000" by (simp add: settle_delay_def)
  from T obtain h where 1: "started_for ''c'' (run example_env ?es ?s) = []"
    and 2: "started_for ''c'' (run example_env (?es @ [Tick 12000]) ?s) =
      [] @ [\<lparr>p_id = h, p_chatId = ''c'', currentMessage = Some (js ''b''), p_target = ''c''\<rparr>]"
    unfolding t by blast
  show ?thesis
    using i a 1 2 by (simp del: run.simps step.simps arrivals.simps)
qed

section \<open>Failed transcription: the claim\<close>

lemma transcription_failed_reply:
  assumes "transcription_failed io"
  shows "\<exists>a. (a = desculpe_audio \<or> a = nao_consigo_audio) \<and>
    fst (transcribeAudio dir io m fs) = Inr a"
  using assms
  by (auto simp: transcription_failed_def transcribeAudio_def transcribeAudio_try_def Let_def isl_def
      split: sum.splits option.splits)

lemma onAnyMessage_voice:
  assumes "msg_type m = ''ptt'' \<or> msg_type m = ''audio''"
    and "\<not> fromMe m" "\<not> isGroupMsg m" "chatId m \<noteq> ''status@broadcast''"
    and "AI_SELECTED env = GPT \<longrightarrow> initializeNewAIChatSession io = None"
    and "fst (transcribeAudio (dirname env) io m fs) = Inr a"
  shows "onAnyMessage env io m fs =
    (Some (chatId m, a, msg_from m), snd (transcribeAudio (dirname env) io m fs))"
  using assms
  by (cases "transcribeAudio (dirname env) io m fs")
     (auto simp: onAnyMessage_def messageContent_of_def)

lemma settle_first_answer:
  assumes "generate_of env p 1 = Inr r"
  shows "handed_over (settle env p) =
    Some (splitMessages (if trim r = [] then desculpe_nao_entendi else r), p_target p)"
proof -
  have "retry_loop (generate_of env p) 1 [] =
      (Inr (if trim r = [] then desculpe_nao_entendi else r), failed_attempts 1 0 @ [Call (0 + 1)])"
    using assms by (intro retry_loop_success) (auto simp: MAX_RETRIES_def)
  then show ?thesis by (simp add: settle_def Let_def)
qed

lemma p_id_fire: "map p_id (map (fire s) tms) = map t_id tms"
  by (simp add: fire_def)

lemma ids_distinct_init: "ids_distinct (init fs0)"
  by (simp add: ids_distinct_def init_def)

lemma ids_distinct_files: "ids_distinct (s\<lparr>files := f\<rparr>) = ids_distinct s"
  by (simp add: ids_distinct_def)

lemma filter_split_disjoint:
  "distinct (map f xs) \<Longrightarrow>
   set (map f (filter (\<lambda>x. \<not> P x) xs)) \<inter> set (map f (filter P xs)) = {}"
  by (induction xs) auto

lemma ids_distinct_advance:
  assumes "ids_distinct s"
  shows "ids_distinct (advance t s)"
proof -
  let ?due = "\<lambda>tm. t_deadline tm \<le> max (now s) t"
  have T: "distinct (map t_id (timers s))" and R: "distinct (map p_id (running s))"
    and D: "set (map t_id (timers s)) \<inter> set (map p_id (running s)) = {}"
    using assms by (simp_all add: ids_distinct_def)
  have 1: "distinct (map t_id (filter (\<lambda>tm. \<not> ?due tm) (timers s)))"
    and 2: "distinct (map t_id (filter ?due (timers s)))"
    using T by (simp_all add: distinct_map_filter)
  have 3: "set (map t_id (filter (\<lambda>tm. \<not> ?due tm) (timers s))) \<inter>
      set (map t_id (filter ?due (timers s))) = {}"
    using T by (rule filter_split_disjoint)
  have 4: "set (map t_id (filter (\<lambda>tm. \<not> ?due tm) (timers s))) \<inter> set (map p_id (running s)) = {}"
    and 5: "set (map p_id (running s)) \<inter> set (map t_id (filter ?due (timers s))) = {}"
    using D by auto
  have "distinct (map t_id (filter (\<lambda>tm. \<not> ?due tm) (timers s)) @
      map p_id (running s) @ map t_id (filter ?due (timers s)))"
    using 1 2 3 4 5 R by (simp only: distinct_append Int_Un_distrib set_append) blast
  then show ?thesis
    by (simp only: ids_distinct_def advance_fields map_append p_id_fire)
qed

lemma ids_distinct_complete: "ids_distinct s \<Longrightarrow> ids_distinct (complete env p s)"
  unfolding ids_distinct_def by (auto simp: distinct_map_filter)

lemma ids_distinct_on_message:
  assumes "sched_inv s" "ids_distinct s"
  shows "ids_distinct (on_message c x target s)"
proof -
  have lt: "\<forall>tm\<in>set (timers s). t_id tm < next_timer s"
    and lr: "\<forall>p\<in>set (running s). p_id p < next_timer s"
    using assms(1) by (auto simp: sched_inv_def)
  let ?old = "case messageTimeouts s c of
      Some h \<Rightarrow> filter (\<lambda>tm. t_id tm \<noteq> h) (timers s) | None \<Rightarrow> timers s"
  have sub: "set ?old \<subseteq> set (timers s)" by (auto split: option.splits)
  have T: "distinct (map t_id (timers s))" and R: "distinct (map p_id (running s))"
    and D: "set (map t_id (timers s)) \<inter> set (map p_id (running s)) = {}"
    using assms(2) by (simp_all add: ids_distinct_def)
  have 1: "distinct (map t_id ?old)"
    using T by (simp add: distinct_map_filter split: option.splits)
  have 2: "next_timer s \<notin> set (map t_id ?old)" using sub lt by auto
  have 3: "next_timer s \<notin> set (map p_id (running s))" using lr by auto
  have 4: "set (map t_id ?old) \<inter> set (map p_id (running s)) = {}" using sub D by auto
  have "distinct ((map t_id ?old @ [next_timer s]) @ map p_id (running s))"
    using 1 2 3 4 R by (simp only: distinct_append) auto
  then show ?thesis
    unfolding ids_distinct_def by (simp only: on_message_fields map_append list.map Timer.simps)
qed

lemma ids_distinct_step:
  assumes "sched_inv s" "ids_distinct s"
  shows "ids_distinct (step env e s)"
proof (cases e)
  case (Receive t io m)
  obtain r fs' where o: "onAnyMessage env io m (files (advance t s)) = (r, fs')"
    by (cases "onAnyMessage env io m (files (advance t s))")
  have a: "sched_inv ((advance t s)\<lparr>files := fs'\<rparr>)" "ids_distinct ((advance t s)\<lparr>files := fs'\<rparr>)"
    using assms by (simp_all add: sched_inv_files sched_inv_advance ids_distinct_files ids_distinct_advance)
  show ?thesis
  proof (cases r)
    case None
    then show ?thesis using a o Receive by simp
  next
    case (Some b)
    obtain c x target where b: "b = (c, x, target)" by (cases b)
    show ?thesis
      using ids_distinct_on_message [OF a] o Receive Some b by simp
  qed
next
  case (Complete t h)
  then show ?thesis
    using assms(2)
    by (cases "find (\<lambda>p. p_id p = h) (running (advance t s))")
       (simp_all add: ids_distinct_complete ids_distinct_advance Let_def del: advance_fields)
next
  case (Tick t)
  then show ?thesis using assms(2) by (simp add: ids_distinct_advance)
qed

lemma ids_distinct_run: "sched_inv s \<Longrightarrow> ids_distinct s \<Longrightarrow> ids_distinct (run env es s)"
  by (induction es arbitrary: s) (simp_all add: sched_inv_step ids_distinct_step)

lemma find_by_id:
  "distinct (map f xs) \<Longrightarrow> p \<in> set xs \<Longrightarrow> find (\<lambda>q. f q = f p) xs = Some p"
  by (induction xs) auto

lemma advance_expiry_running:
  assumes "armed c x target d s"
  shows "\<exists>h. started_for c (advance d s) =
      started_for c s @ [\<lparr>p_id = h, p_chatId = c, currentMessage = Some x, p_target = target\<rparr>] \<and>
    \<lparr>p_id = h, p_chatId = c, currentMessage = Some x, p_target = target\<rparr> \<in> set (running (advance d s))"
proof -
  from assms obtain h where
    t: "timers_for c s = [\<lparr>t_id = h, t_deadline = d, t_chatId = c, t_target = target\<rparr>]"
    and b: "messageBufferPerChatId s c = Some x" and n: "now s < d" and r: "running_for c s = []"
    by (auto simp: armed_def)
  let ?p = "\<lparr>p_id = h, p_chatId = c, currentMessage = Some x, p_target = target\<rparr>"
  have 1: "started_for c (advance d s) = started_for c s @ [?p]"
    using t b n by (simp add: for_advance fire_def max_def)
  have "running_for c (advance d s) = [?p]"
    using t b n r by (simp add: for_advance fire_def max_def)
  then have "?p \<in> set (running_for c (advance d s))" by simp
  then have 2: "?p \<in> set (running (advance d s))" by (simp add: running_for_def)
  show ?thesis using 1 2 by blast
qed

lemma transcription_failed_reply_any:
  assumes "transcription_failed io"
  shows "\<exists>a. (a = desculpe_audio \<or> a = nao_consigo_audio) \<and>
    (\<forall>fs. fst (transcribeAudio dir io m fs) = Inr a)"
proof -
  obtain a where a: "a = desculpe_audio \<or> a = nao_consigo_audio"
    and r: "fst (transcribeAudio dir io m Map.empty) = Inr a"
    using transcription_failed_reply [OF assms] by blast
  have "fst (transcribeAudio dir io m fs) = Inr a" for fs
    using r transcribeAudio_reply_indep [of dir io m fs Map.empty] by simp
  then show ?thesis using a by blast
qed




end
